theory Spec2Isabelle
  imports Complex_Main
begin

section \<open>Data model\<close>

text \<open>
  The library stores a graph in compressed-column form.  The source type \<open>Int\<close> is a
  64-bit signed integer; counters and array indices that the code only ever increments
  from zero are modelled as \<open>nat\<close>, and every variable that can hold the sentinel
  \<open>-1\<close> (\<open>singleton\<close>, \<open>heaviestNeighbor\<close>, \<open>v\<close>, the hash-table cells) is an
  \<open>int\<close>.  The source type \<open>Weight\<close>/\<open>double\<close> is modelled by the exact reals:
  rounding, infinities and NaN are outside this model.  Reading an array beyond its end
  is undefined behaviour in the source; the theorems below carry the well-formedness
  conditions that exclude it.
\<close>

type_synonym Weight = real

datatype MatchType =
  MatchType_Orphan | MatchType_Standard | MatchType_Brotherly | MatchType_Community

datatype MatchingStrategy = Random | HEM | HEMPA | HEMDavisPA

text \<open>
  Modelled from the spec: the declaration of the enumeration \<open>GuessCutType\<close> is not part
  of the sources.  Its members are the three strategies that the specification lists
  (QP, Random, NaturalOrder; the test driver names them \<open>GuessQP\<close>, \<open>GuessRandom\<close>,
  \<open>GuessNaturalOrder\<close>) and the enumerator \<open>Pseudoperipheral_Fast\<close>, which
  \<open>Options::Create\<close> assigns.
\<close>

datatype GuessCutType =
  GuessQP | GuessRandom | GuessNaturalOrder | Pseudoperipheral_Fast

record Options =
  randomSeed :: int
  coarsenLimit :: int
  matchingStrategy :: MatchingStrategy
  doCommunityMatching :: bool
  davisBrotherlyThreshold :: real
  guessCutType :: GuessCutType
  guessSearchDepth :: int
  numDances :: int
  useFM :: bool
  fmSearchDepth :: int
  fmConsiderCount :: int
  fmMaxNumRefinements :: int
  useQPGradProj :: bool
  useQPBallOpt :: bool
  gradprojTol :: real
  gradprojIterationLimit :: int
  targetSplit :: real
  tolerance :: real
  doExpensiveChecks :: bool

text \<open>
  The fields of \<open>Graph\<close> carry the names of the local aliases the source uses for them
  (\<open>Gp = G->p\<close>, \<open>Gi = G->i\<close>, \<open>Gx = G->x\<close>, \<open>Gw = G->w\<close>).  \<open>Gx\<close> may be a null
  pointer (no edge weights), hence the option.
\<close>

record Graph =
  Gn :: nat
  Gnz :: nat
  Gp :: "nat list"
  Gi :: "nat list"
  Gx :: "Weight list option"
  Gw :: "Weight list"
  GW :: Weight
  GX :: Weight
  GH :: Weight
  cn :: nat
  matching :: "nat list"
  matchmap :: "nat list"
  invmatchmap :: "nat list"
  singleton :: int
  vertexGains :: "Weight list"

section \<open>Options\<close>

text \<open>
  \<open>Options::Create\<close> (Mongoose_Options.cpp).  \<open>SuiteSparse_calloc\<close> may fail; the
  argument says whether the allocation succeeded, and \<open>None\<close> is the null pointer.
\<close>

definition Options_Create :: "bool \<Rightarrow> Options option" where
  "Options_Create alloc_ok =
     (if alloc_ok then
        Some \<lparr> randomSeed = 0,
               coarsenLimit = 256,
               matchingStrategy = HEMDavisPA,
               doCommunityMatching = False,
               davisBrotherlyThreshold = 2.0,
               guessCutType = Pseudoperipheral_Fast,
               guessSearchDepth = 10,
               numDances = 1,
               useFM = True,
               fmSearchDepth = 50,
               fmConsiderCount = 3,
               fmMaxNumRefinements = 20,
               useQPGradProj = True,
               useQPBallOpt = True,
               gradprojTol = 0.001,
               gradprojIterationLimit = 50,
               targetSplit = 0.5,
               tolerance = 0.01,
               doExpensiveChecks = False \<rparr>
      else None)"

section \<open>Matching\<close>

text \<open>
  Modelled from the spec: the inline members \<open>Graph::isMatched\<close>, \<open>Graph::getMatch\<close>
  and \<open>Graph::createMatch\<close> (and the macro \<open>MONGOOSE_GETMATCH\<close>) are declared in a
  header that is not part of the sources.  The specification fixes the representation:
  \<open>matching[a]\<close> is \<open>b+1\<close> if \<open>a\<close> and \<open>b\<close> are matched (\<open>a+1\<close> for an orphan) and
  never \<open>0\<close> for a matched vertex; \<open>matchmap[a]\<close> is the coarse vertex containing \<open>a\<close>;
  \<open>invmatchmap[c]\<close> is one representative fine vertex of \<open>c\<close>; every matching
  operation grows \<open>cn\<close>.  The match type is not part of the specified data model and
  is not stored.
\<close>

definition isMatched :: "Graph \<Rightarrow> nat \<Rightarrow> bool" where
  "isMatched g vertex = (matching g ! vertex > 0)"

definition getMatch :: "Graph \<Rightarrow> nat \<Rightarrow> int" where
  "getMatch g vertex = int (matching g ! vertex) - 1"

definition createMatch :: "Graph \<Rightarrow> nat \<Rightarrow> nat \<Rightarrow> MatchType \<Rightarrow> Graph" where
  "createMatch g vertexA vertexB matchType =
     g \<lparr> matching := (matching g)[vertexA := vertexB + 1, vertexB := vertexA + 1],
         invmatchmap := (invmatchmap g)[cn g := vertexA],
         matchmap := (matchmap g)[vertexA := cn g, vertexB := cn g],
         cn := cn g + 1 \<rparr>"

text \<open>
  Modelled from the spec: \<open>Graph::createCommunityMatch\<close> is declared in the same
  missing header.  The specification says that the leftover vertex is attached to the
  supernode of \<open>vertexA\<close> as a community member, that a three-way match is the chain
  \<open>matching[a]=b+1, matching[b]=c+1, matching[c]=a+1\<close>, and that a supernode has one,
  two or three members.  The model walks the chain of \<open>vertexA\<close>; when the chain closes
  after three steps the supernode is full, so the chain is cut into the pair
  \<open>(vertexA, vm1)\<close> and a new pair of \<open>vm2\<close> with \<open>vertexB\<close>; otherwise \<open>vertexB\<close>
  is spliced in after \<open>vertexA\<close> and inherits its coarse vertex.  The matching
  strategies below take this operation as a parameter \<open>ccm\<close>, so that the theorems
  about them hold for every implementation that meets the stated contract.
\<close>

definition createCommunityMatch :: "Graph \<Rightarrow> nat \<Rightarrow> nat \<Rightarrow> MatchType \<Rightarrow> Graph" where
  "createCommunityMatch g vertexA vertexB matchType =
     (let vm0 = vertexA;
          vm1 = nat (getMatch g vm0);
          vm2 = nat (getMatch g vm1);
          vm3 = nat (getMatch g vm2);
          is3Way = (vm0 = vm3)
      in if is3Way then
           createMatch (g \<lparr> matching := (matching g)[vm1 := vertexA + 1] \<rparr>)
             vm2 vertexB matchType
         else
           g \<lparr> matching := (matching g)[vertexB := matching g ! vertexA, vertexA := vertexB + 1],
               matchmap := (matchmap g)[vertexB := matchmap g ! vertexA] \<rparr>)"

text \<open>The value of \<open>(Gx) ? Gx[p] : 1\<close>.\<close>

definition edgeWeightAt :: "Graph \<Rightarrow> nat \<Rightarrow> Weight" where
  "edgeWeightAt g q = (case Gx g of None \<Rightarrow> 1 | Some xs \<Rightarrow> xs ! q)"

text \<open>The value of \<open>Gp[k + 1] - Gp[k]\<close>, a signed difference.\<close>

definition degree :: "Graph \<Rightarrow> nat \<Rightarrow> int" where
  "degree g k = int (Gp g ! (k + 1)) - int (Gp g ! k)"

text \<open>The positions \<open>p = Gp[k], ..., Gp[k+1]-1\<close> that a column loop visits.\<close>

definition column :: "Graph \<Rightarrow> nat \<Rightarrow> nat list" where
  "column g k = [Gp g ! k ..< Gp g ! (k + 1)]"

subsection \<open>matching_Random\<close>

text \<open>
  The inner loop runs while \<open>unmatched\<close> holds; the state is the graph and that flag.
  The options argument is unused in the source (\<open>(void)options\<close>).
\<close>

definition matching_Random_inner :: "nat \<Rightarrow> nat \<Rightarrow> Graph \<times> bool \<Rightarrow> Graph \<times> bool" where
  "matching_Random_inner k q s =
     (case s of (g, unmatched) \<Rightarrow>
        if \<not> unmatched then (g, unmatched)
        else let neighbor = Gi g ! q
             in if isMatched g neighbor then (g, unmatched)
                else (createMatch g k neighbor MatchType_Standard, False))"

definition matching_Random_step :: "nat \<Rightarrow> Graph \<Rightarrow> Graph" where
  "matching_Random_step k g =
     (if isMatched g k then g
      else fst (fold (matching_Random_inner k) (column g k) (g, True)))"

definition matching_Random :: "Graph \<Rightarrow> Options \<Rightarrow> Graph" where
  "matching_Random graph options = fold matching_Random_step [0 ..< Gn graph] graph"

subsection \<open>matching_HEM\<close>

definition matching_HEM_inner :: "Graph \<Rightarrow> nat \<Rightarrow> int \<times> Weight \<Rightarrow> int \<times> Weight" where
  "matching_HEM_inner g q s =
     (case s of (heaviestNeighbor, heaviestWeight) \<Rightarrow>
        let neighbor = Gi g ! q
        in if isMatched g neighbor then (heaviestNeighbor, heaviestWeight)
           else let x = edgeWeightAt g q
                in if x > heaviestWeight then (int neighbor, x)
                   else (heaviestNeighbor, heaviestWeight))"

definition matching_HEM_step :: "nat \<Rightarrow> Graph \<Rightarrow> Graph" where
  "matching_HEM_step k g =
     (if isMatched g k then g
      else let heaviestNeighbor = fst (fold (matching_HEM_inner g) (column g k) (- 1, - 1))
           in if heaviestNeighbor \<noteq> - 1
              then createMatch g k (nat heaviestNeighbor) MatchType_Standard
              else g)"

definition matching_HEM :: "Graph \<Rightarrow> Options \<Rightarrow> Graph" where
  "matching_HEM graph options = fold matching_HEM_step [0 ..< Gn graph] graph"

subsection \<open>matching_PA and matching_DavisPA\<close>

text \<open>
  Both strategies pair up the unmatched neighbours of a vertex in storage order
  (\<open>brotherly_inner\<close>, the loop over \<open>Gp[h] .. Gp[h+1]\<close> with the pending vertex \<open>v\<close>)
  and then resolve a leftover vertex (\<open>resolve_leftover\<close>).  The debug-only blocks
  (\<open>#ifndef NDEBUG\<close>, \<open>ASSERT\<close>) are not part of the release code and are left out.
\<close>

definition brotherly_inner :: "nat \<Rightarrow> Graph \<times> int \<Rightarrow> Graph \<times> int" where
  "brotherly_inner q s =
     (case s of (g, v) \<Rightarrow>
        let neighbor = Gi g ! q
        in if isMatched g neighbor then (g, v)
           else if v = - 1 then (g, int neighbor)
           else (createMatch g (nat v) neighbor MatchType_Brotherly, - 1))"

definition resolve_leftover ::
  "(Graph \<Rightarrow> nat \<Rightarrow> nat \<Rightarrow> MatchType \<Rightarrow> Graph) \<Rightarrow> Options \<Rightarrow> nat \<Rightarrow> Graph \<times> int \<Rightarrow> Graph" where
  "resolve_leftover ccm options h s =
     (case s of (g, v) \<Rightarrow>
        if v \<noteq> - 1 then
          (if doCommunityMatching options
           then ccm g h (nat v) MatchType_Community
           else createMatch g (nat v) (nat v) MatchType_Orphan)
        else g)"

definition matching_PA_heaviest :: "Graph \<Rightarrow> nat \<Rightarrow> int \<times> Weight \<Rightarrow> int \<times> Weight" where
  "matching_PA_heaviest g q s =
     (case s of (heaviestNeighbor, heaviestWeight) \<Rightarrow>
        let neighbor = Gi g ! q;
            x = edgeWeightAt g q
        in if x > heaviestWeight then (int neighbor, x)
           else (heaviestNeighbor, heaviestWeight))"

definition matching_PA_step ::
  "(Graph \<Rightarrow> nat \<Rightarrow> nat \<Rightarrow> MatchType \<Rightarrow> Graph) \<Rightarrow> Options \<Rightarrow> nat \<Rightarrow> Graph \<Rightarrow> Graph" where
  "matching_PA_step ccm options k g =
     (if isMatched g k then g
      else let heaviestNeighbor = fst (fold (matching_PA_heaviest g) (column g k) (- 1, - 1))
           in if heaviestNeighbor \<noteq> - 1
              then resolve_leftover ccm options (nat heaviestNeighbor)
                     (fold brotherly_inner (column g (nat heaviestNeighbor)) (g, - 1))
              else g)"

definition matching_PA ::
  "(Graph \<Rightarrow> nat \<Rightarrow> nat \<Rightarrow> MatchType \<Rightarrow> Graph) \<Rightarrow> Graph \<Rightarrow> Options \<Rightarrow> Graph" where
  "matching_PA ccm graph options = fold (matching_PA_step ccm options) [0 ..< Gn graph] graph"

text \<open>The conversion \<open>(Int)bt\<close> of a double truncates towards zero.\<close>

definition trunc_to_Int :: "real \<Rightarrow> int" where
  "trunc_to_Int r = (if r \<ge> 0 then \<lfloor>r\<rfloor> else \<lceil>r\<rceil>)"

definition matching_DavisPA_step ::
  "(Graph \<Rightarrow> nat \<Rightarrow> nat \<Rightarrow> MatchType \<Rightarrow> Graph) \<Rightarrow> Options \<Rightarrow> real \<Rightarrow> nat \<Rightarrow> Graph \<Rightarrow> Graph" where
  "matching_DavisPA_step ccm options bt k g =
     (if \<not> isMatched g k then g
      else if degree g k \<ge> trunc_to_Int bt
           then resolve_leftover ccm options k (fold brotherly_inner (column g k) (g, - 1))
           else g)"

definition matching_DavisPA ::
  "(Graph \<Rightarrow> nat \<Rightarrow> nat \<Rightarrow> MatchType \<Rightarrow> Graph) \<Rightarrow> Graph \<Rightarrow> Options \<Rightarrow> Graph" where
  "matching_DavisPA ccm graph options =
     (let bt = davisBrotherlyThreshold options * (real (Gnz graph) / real (Gn graph))
      in fold (matching_DavisPA_step ccm options bt) [0 ..< Gn graph] graph)"

subsection \<open>matching_Cleanup and match\<close>

definition matching_Cleanup_step :: "nat \<Rightarrow> Graph \<Rightarrow> Graph" where
  "matching_Cleanup_step k g =
     (if \<not> isMatched g k then
        (if degree g k = 0 then
           (if singleton g = - 1 then g \<lparr> singleton := int k \<rparr>
            else (createMatch g k (nat (singleton g)) MatchType_Standard) \<lparr> singleton := - 1 \<rparr>)
         else createMatch g k k MatchType_Orphan)
      else g)"

definition matching_Cleanup :: "Graph \<Rightarrow> Options \<Rightarrow> Graph" where
  "matching_Cleanup graph options =
     (let g = fold matching_Cleanup_step [0 ..< Gn graph] graph
      in if singleton g \<noteq> - 1
         then createMatch g (nat (singleton g)) (nat (singleton g)) MatchType_Orphan
         else g)"

text \<open>
  \<open>match\<close> dispatches on the strategy and then cleans up; \<open>match_strategy\<close> is the
  \<open>switch\<close> statement, whose result is the graph that \<open>matching_Cleanup\<close> receives.
\<close>

definition match_strategy ::
  "(Graph \<Rightarrow> nat \<Rightarrow> nat \<Rightarrow> MatchType \<Rightarrow> Graph) \<Rightarrow> Graph \<Rightarrow> Options \<Rightarrow> Graph" where
  "match_strategy ccm graph options =
     (case matchingStrategy options of
        Random \<Rightarrow> matching_Random graph options
      | HEM \<Rightarrow> matching_HEM graph options
      | HEMPA \<Rightarrow> matching_PA ccm (matching_HEM graph options) options
      | HEMDavisPA \<Rightarrow> matching_DavisPA ccm (matching_HEM graph options) options)"

definition match ::
  "(Graph \<Rightarrow> nat \<Rightarrow> nat \<Rightarrow> MatchType \<Rightarrow> Graph) \<Rightarrow> Graph \<Rightarrow> Options \<Rightarrow> Graph" where
  "match ccm graph options = matching_Cleanup (match_strategy ccm graph options) options"

section \<open>Properties of the options\<close>

text \<open>
  C7 (counterexample).  The claim says that the default \<open>guessCutType\<close> is the QP
  strategy, one of QP, Random and NaturalOrder.  The structure that \<open>Options::Create\<close>
  returns carries \<open>Pseudoperipheral_Fast\<close>, which is none of the three.
\<close>

theorem Options_Create_guessCutType_counterexample:
  "\<not> (\<exists>opts. Options_Create True = Some opts \<and>
         guessCutType opts \<in> {GuessQP, GuessRandom, GuessNaturalOrder})"
  by (simp add: Options_Create_def)

text \<open>
  C7 (amended).  When the allocation succeeds, \<open>Options::Create\<close> returns a structure
  whose \<open>guessCutType\<close> is \<open>Pseudoperipheral_Fast\<close>, alongside the documented defaults
  of the other fields: \<open>randomSeed\<close> 0, \<open>coarsenLimit\<close> 256, \<open>matchingStrategy\<close>
  \<open>HEMDavisPA\<close>, \<open>targetSplit\<close> 0.5, \<open>tolerance\<close> 0.01, and the rest of the table.
\<close>

theorem Options_Create_defaults:
  "\<exists>opts. Options_Create True = Some opts \<and>
     guessCutType opts = Pseudoperipheral_Fast \<and>
     randomSeed opts = 0 \<and> coarsenLimit opts = 256 \<and>
     matchingStrategy opts = HEMDavisPA \<and> doCommunityMatching opts = False \<and>
     davisBrotherlyThreshold opts = 2 \<and> guessSearchDepth opts = 10 \<and>
     numDances opts = 1 \<and> useFM opts = True \<and> fmSearchDepth opts = 50 \<and>
     fmConsiderCount opts = 3 \<and> fmMaxNumRefinements opts = 20 \<and>
     useQPGradProj opts = True \<and> useQPBallOpt opts = True \<and>
     gradprojTol opts = 1 / 1000 \<and> gradprojIterationLimit opts = 50 \<and>
     targetSplit opts = 1 / 2 \<and> tolerance opts = 1 / 100 \<and>
     doExpensiveChecks opts = False"
  by (simp add: Options_Create_def)

section \<open>Random matching and the seed\<close>

text \<open>
  C8 (counterexample).  The claim says that for some graph two runs of
  \<open>matching_Random\<close> that differ only in \<open>options.randomSeed\<close> produce different
  matchings.  No such graph exists: the function never reads its options.
\<close>

theorem matching_Random_seed_counterexample:
  "\<not> (\<exists>g opts s s'.
         matching_Random g (opts\<lparr>randomSeed := s\<rparr>) \<noteq>
         matching_Random g (opts\<lparr>randomSeed := s'\<rparr>))"
  by (simp add: matching_Random_def)

text \<open>
  C8 (amended).  The matching produced by \<open>matching_Random\<close> does not depend on the
  options at all, and so not on \<open>randomSeed\<close>: on every graph, any two option
  structures give the same result.
\<close>

theorem matching_Random_ignores_options:
  "matching_Random g opts = matching_Random g opts'"
  by (simp add: matching_Random_def)

section \<open>QPLinks\<close>


text \<open>
  \<open>QPLinks\<close> (second part of Mongoose_Options.cpp).  The first loop sets
  \<open>grad[k] = (0.5-x[k]) * D[k]\<close>.  The second loop returns \<open>false\<close> at the first
  \<open>x[k]\<close> outside \<open>[0,1]\<close>; its state carries a flag that is cleared at that point,
  after which the remaining iterations do nothing, so the result holds the arrays as the
  early return leaves them.  The block under \<open>#ifndef NDEBUG\<close> is not release code.
\<close>

definition QPLinks_init_grad :: "real list \<Rightarrow> real list \<Rightarrow> nat \<Rightarrow> real list \<Rightarrow> real list" where
  "QPLinks_init_grad x D k grad = grad[k := (0.5 - x ! k) * D ! k]"

definition QPLinks_scatter :: "Graph \<Rightarrow> real \<Rightarrow> nat \<Rightarrow> real list \<Rightarrow> real list" where
  "QPLinks_scatter graph r q grad =
     grad[Gi graph ! q := grad ! (Gi graph ! q) + r * the (Gx graph) ! q]"




subsection \<open>When QPLinks fails\<close>



text \<open>
  A graph of two vertices joined by one edge of weight 3, with unit vertex weights, and a
  QP state over it.
\<close>

definition G_edge :: Graph where
  "G_edge = \<lparr> Gn = 2, Gnz = 2, Gp = [0, 1, 2], Gi = [1, 0], Gx = Some [3, 3], Gw = [1, 1],
          GW = 2, GX = 3, GH = 6, cn = 0, matching = [0, 0], matchmap = [0, 0],
          invmatchmap = [0, 0], singleton = - 1, vertexGains = [0, 0] \<rparr>"



subsection \<open>What a successful QPLinks establishes\<close>

lemma length_init_grad [simp]:
  "length (fold (QPLinks_init_grad x D) ks grad) = length grad"
  by (induction ks arbitrary: grad) (simp_all add: QPLinks_init_grad_def)


lemma length_scatter [simp]:
  "length (fold (QPLinks_scatter g r) ps grad) = length grad"
  by (induction ps arbitrary: grad) (simp_all add: QPLinks_scatter_def)











section \<open>Properties of the matching phase\<close>

text \<open>
  Well-formedness of the input that the matching code relies on: every stored neighbour
  is a vertex, and (for heavy-edge matching) every edge weight is positive.
\<close>

definition valid_neighbors :: "Graph \<Rightarrow> bool" where
  "valid_neighbors g = (\<forall>k < Gn g. \<forall>q \<in> set (column g k). Gi g ! q < Gn g)"

definition positive_edge_weights :: "Graph \<Rightarrow> bool" where
  "positive_edge_weights g = (\<forall>k < Gn g. \<forall>q \<in> set (column g k). 0 < edgeWeightAt g q)"

definition maximal_matching :: "Graph \<Rightarrow> bool" where
  "maximal_matching g =
     (\<forall>k < Gn g. isMatched g k \<or> (\<forall>q \<in> set (column g k). isMatched g (Gi g ! q)))"

text \<open>
  \<open>extends g g'\<close>: the graph \<open>g'\<close> has the structure of \<open>g\<close> and every vertex matched in
  \<open>g\<close> is matched in \<open>g'\<close>.
\<close>

definition extends :: "Graph \<Rightarrow> Graph \<Rightarrow> bool" where
  "extends g g' =
     (Gn g' = Gn g \<and> Gnz g' = Gnz g \<and> Gp g' = Gp g \<and> Gi g' = Gi g \<and> Gx g' = Gx g \<and>
      Gw g' = Gw g \<and> length (matching g') = length (matching g) \<and>
      (\<forall>v. isMatched g v \<longrightarrow> isMatched g' v))"

lemma extends_refl [simp]: "extends g g"
  by (simp add: extends_def)

lemma extends_trans: "extends g g' \<Longrightarrow> extends g' g'' \<Longrightarrow> extends g g''"
  by (simp add: extends_def)

lemma extends_column: "extends g g' \<Longrightarrow> column g' k = column g k"
  by (simp add: extends_def column_def)

lemma extends_edgeWeightAt: "extends g g' \<Longrightarrow> edgeWeightAt g' q = edgeWeightAt g q"
  by (simp add: extends_def edgeWeightAt_def)

lemma extends_degree: "extends g g' \<Longrightarrow> degree g' k = degree g k"
  by (simp add: extends_def degree_def)

lemma isMatched_createMatch:
  assumes "a < length (matching g)" "b < length (matching g)"
  shows "isMatched (createMatch g a b t) v \<longleftrightarrow> v = a \<or> v = b \<or> isMatched g v"
  using assms by (auto simp: isMatched_def createMatch_def nth_list_update)

lemma extends_createMatch:
  assumes "a < length (matching g)" "b < length (matching g)"
  shows "extends g (createMatch g a b t)"
  unfolding extends_def
  using isMatched_createMatch [OF assms] by (simp add: createMatch_def)

lemma singleton_createMatch [simp]: "singleton (createMatch g a b t) = singleton g"
  by (simp add: createMatch_def)

subsection \<open>Maximality of random matching\<close>

lemma Random_inner_done:
  "fold (matching_Random_inner k) qs (g, False) = (g, False)"
  by (induction qs) (simp_all add: matching_Random_inner_def)



text \<open>A loop over the vertices whose body extends the matching and settles its own vertex.\<close>

lemma vertex_loop_maximal:
  assumes step: "\<And>k g'. k < Gn g \<Longrightarrow> extends g g' \<Longrightarrow>
            extends g' (f k g') \<and>
            (isMatched (f k g') k \<or> (\<forall>q \<in> set (column g k). isMatched (f k g') (Gi g ! q)))"
    and "m \<le> Gn g"
  shows "extends g (fold f [0 ..< m] g) \<and>
         (\<forall>k < m. isMatched (fold f [0 ..< m] g) k \<or>
            (\<forall>q \<in> set (column g k). isMatched (fold f [0 ..< m] g) (Gi g ! q)))"
  using assms(2)
proof (induction m)
  case 0
  show ?case by simp
next
  case (Suc m)
  let ?g' = "fold f [0 ..< m] g"
  have IH: "extends g ?g'"
    "\<forall>k < m. isMatched ?g' k \<or> (\<forall>q \<in> set (column g k). isMatched ?g' (Gi g ! q))"
    using Suc by simp_all
  have s: "extends ?g' (f m ?g')"
    "isMatched (f m ?g') m \<or> (\<forall>q \<in> set (column g m). isMatched (f m ?g') (Gi g ! q))"
    using step [of m ?g'] Suc.prems IH(1) by simp_all
  have mono: "\<And>v. isMatched ?g' v \<Longrightarrow> isMatched (f m ?g') v"
    using s(1) by (simp add: extends_def)
  have "fold f [0 ..< Suc m] g = f m ?g'" by simp
  moreover have "extends g (f m ?g')" using IH(1) s(1) by (rule extends_trans)
  moreover have "\<forall>k < Suc m. isMatched (f m ?g') k \<or>
            (\<forall>q \<in> set (column g k). isMatched (f m ?g') (Gi g ! q))"
    using IH(2) s(2) mono by (auto simp: less_Suc_eq)
  ultimately show ?case by simp
qed


subsection \<open>Maximality of heavy-edge matching\<close>

lemma HEM_inner:
  "case fold (matching_HEM_inner g) qs (hn, hw) of (hn', hw') \<Rightarrow>
     (hn' = hn \<and> hw' = hw \<and> (\<forall>q \<in> set qs. isMatched g (Gi g ! q) \<or> edgeWeightAt g q \<le> hw)) \<or>
     (\<exists>q \<in> set qs. hn' = int (Gi g ! q) \<and> \<not> isMatched g (Gi g ! q))"
proof (induction qs arbitrary: hn hw)
  case Nil
  show ?case by simp
next
  case (Cons q qs)
  show ?case
  proof (cases "\<not> isMatched g (Gi g ! q) \<and> edgeWeightAt g q > hw")
    case True
    then have "fold (matching_HEM_inner g) (q # qs) (hn, hw) =
      fold (matching_HEM_inner g) qs (int (Gi g ! q), edgeWeightAt g q)"
      by (simp add: matching_HEM_inner_def Let_def)
    with Cons.IH [of "int (Gi g ! q)" "edgeWeightAt g q"] True show ?thesis
      by (auto split: prod.splits)
  next
    case False
    then have "fold (matching_HEM_inner g) (q # qs) (hn, hw) =
      fold (matching_HEM_inner g) qs (hn, hw)"
      by (auto simp: matching_HEM_inner_def Let_def)
    with Cons.IH [of hn hw] False show ?thesis
      by (auto split: prod.splits)
  qed
qed

lemma HEM_step:
  assumes "k < length (matching g)" "\<forall>q \<in> set (column g k). Gi g ! q < length (matching g)"
    and "\<forall>q \<in> set (column g k). 0 < edgeWeightAt g q"
  shows "extends g (matching_HEM_step k g) \<and>
         (isMatched (matching_HEM_step k g) k \<or>
          (\<forall>q \<in> set (column g k). isMatched (matching_HEM_step k g) (Gi g ! q)))"
proof (cases "isMatched g k")
  case True
  then show ?thesis by (simp add: matching_HEM_step_def)
next
  case False
  obtain hn' hw' where r: "fold (matching_HEM_inner g) (column g k) (- 1, - 1) = (hn', hw')"
    by (cases "fold (matching_HEM_inner g) (column g k) (- 1, - 1)") auto
  from HEM_inner [where g = g and qs = "column g k" and hn = "- 1" and hw = "- 1"] r
  consider (none) "hn' = - 1" "\<forall>q \<in> set (column g k). isMatched g (Gi g ! q) \<or> edgeWeightAt g q \<le> - 1"
    | (some) q where "q \<in> set (column g k)" "hn' = int (Gi g ! q)" "\<not> isMatched g (Gi g ! q)"
    by auto
  then show ?thesis
  proof cases
    case none
    have "matching_HEM_step k g = g"
      using False r none(1) by (simp add: matching_HEM_step_def)
    moreover have "\<forall>q \<in> set (column g k). isMatched g (Gi g ! q)"
      using none(2) assms(3) by force
    ultimately show ?thesis by simp
  next
    case some
    have "matching_HEM_step k g = createMatch g k (Gi g ! q) MatchType_Standard"
      using False r some(2) by (simp add: matching_HEM_step_def)
    moreover have "Gi g ! q < length (matching g)" using assms(2) some(1) by simp
    ultimately show ?thesis
      using assms(1) by (simp add: extends_createMatch isMatched_createMatch)
  qed
qed

lemma matching_HEM_maximal:
  assumes "valid_neighbors g" "length (matching g) = Gn g" "positive_edge_weights g"
  shows "extends g (matching_HEM g opts) \<and> maximal_matching (matching_HEM g opts)"
proof -
  have step: "extends g' (matching_HEM_step k g') \<and>
            (isMatched (matching_HEM_step k g') k \<or>
             (\<forall>q \<in> set (column g k). isMatched (matching_HEM_step k g') (Gi g ! q)))"
    if "k < Gn g" "extends g g'" for k g'
  proof -
    have e: "column g' k = column g k" "Gi g' = Gi g" "length (matching g') = Gn g"
      "\<And>q. edgeWeightAt g' q = edgeWeightAt g q"
      using that(2) assms(2) by (simp_all add: extends_def column_def edgeWeightAt_def)
    have "k < length (matching g')" using that(1) e by simp
    moreover have "\<forall>q \<in> set (column g' k). Gi g' ! q < length (matching g')"
      using assms(1) that(1) e by (simp add: valid_neighbors_def)
    moreover have "\<forall>q \<in> set (column g' k). 0 < edgeWeightAt g' q"
      using assms(3) that(1) e by (simp add: positive_edge_weights_def)
    ultimately show ?thesis using HEM_step [of k g'] e by simp
  qed
  have "extends g (fold matching_HEM_step [0 ..< Gn g] g) \<and>
         (\<forall>k < Gn g. isMatched (fold matching_HEM_step [0 ..< Gn g] g) k \<or>
            (\<forall>q \<in> set (column g k). isMatched (fold matching_HEM_step [0 ..< Gn g] g) (Gi g ! q)))"
    by (rule vertex_loop_maximal) (use step in auto)
  then show ?thesis
    unfolding matching_HEM_def maximal_matching_def
    by (auto simp: extends_def column_def)
qed


subsection \<open>Supernodes\<close>

text \<open>
  \<open>mate g v\<close> is the vertex that \<open>matching[v]\<close> points to.  The supernode of \<open>k\<close> is what
  the chain \<open>k, mate k, mate (mate k)\<close> visits; this is how \<open>coarsen\<close> decodes a
  matching.  \<open>matching_inv\<close> says that every matched vertex points to a matched vertex
  and that its chain closes after at most three steps.
\<close>

definition mate :: "Graph \<Rightarrow> nat \<Rightarrow> nat" where
  "mate g v = nat (getMatch g v)"

definition supernode :: "Graph \<Rightarrow> nat \<Rightarrow> nat set" where
  "supernode g k = {k, mate g k, mate g (mate g k)}"

definition matching_inv :: "Graph \<Rightarrow> bool" where
  "matching_inv g =
     (length (matching g) = Gn g \<and>
      (\<forall>v < Gn g. isMatched g v \<longrightarrow>
         mate g v < Gn g \<and> isMatched g (mate g v) \<and>
         (mate g v = v \<or> mate g (mate g v) = v \<or> mate g (mate g (mate g v)) = v)))"

lemma fold_upt_invariant:
  assumes "I 0 s" and "\<And>k t. k < m \<Longrightarrow> I k t \<Longrightarrow> I (Suc k) (f k t)"
  shows "I m (fold f [0 ..< m] s)"
proof -
  have "j \<le> m \<Longrightarrow> I j (fold f [0 ..< j] s)" for j
  proof (induction j)
    case 0
    show ?case using assms(1) by simp
  next
    case (Suc j)
    then show ?case using assms(2) [of j "fold f [0 ..< j] s"] by simp
  qed
  then show ?thesis by simp
qed

lemma mate_createMatch:
  assumes "a < length (matching g)" "b < length (matching g)"
  shows "mate (createMatch g a b t) v = (if v = b then a else if v = a then b else mate g v)"
  using assms by (auto simp: mate_def getMatch_def createMatch_def nth_list_update)

lemma matching_inv_createMatch:
  assumes inv: "matching_inv g" and a: "a < Gn g" and b: "b < Gn g"
    and ua: "\<not> isMatched g a" and ub: "\<not> isMatched g b"
  shows "matching_inv (createMatch g a b t)"
proof -
  let ?g = "createMatch g a b t"
  have len: "length (matching g) = Gn g" using inv by (simp add: matching_inv_def)
  have al: "a < length (matching g)" and bl: "b < length (matching g)" using a b len by simp_all
  have n: "Gn ?g = Gn g" "length (matching ?g) = Gn g"
    using len by (simp_all add: createMatch_def)
  have m: "\<And>v. mate ?g v = (if v = b then a else if v = a then b else mate g v)"
    by (rule mate_createMatch [OF al bl])
  have im: "\<And>v. isMatched ?g v \<longleftrightarrow> v = a \<or> v = b \<or> isMatched g v"
    by (rule isMatched_createMatch [OF al bl])
  have old: "mate g v < Gn g \<and> isMatched g (mate g v) \<and>
         (mate g v = v \<or> mate g (mate g v) = v \<or> mate g (mate g (mate g v)) = v)"
    if "v < Gn g" "isMatched g v" for v
    using inv that by (simp add: matching_inv_def)
  have "mate ?g v < Gn g \<and> isMatched ?g (mate ?g v) \<and>
         (mate ?g v = v \<or> mate ?g (mate ?g v) = v \<or> mate ?g (mate ?g (mate ?g v)) = v)"
    if v: "v < Gn g" "isMatched ?g v" for v
  proof (cases "v = a \<or> v = b")
    case True
    then show ?thesis using a b by (auto simp: m im)
  next
    case False
    then have mv: "isMatched g v" using v(2) im by simp
    note o = old [OF v(1) mv]
    have o2: "mate g (mate g v) < Gn g \<and> isMatched g (mate g (mate g v))"
      using old [of "mate g v"] o by simp
    have ne1: "mate g v \<noteq> a" "mate g v \<noteq> b" using o ua ub by auto
    have ne2: "mate g (mate g v) \<noteq> a" "mate g (mate g v) \<noteq> b" using o2 ua ub by auto
    show ?thesis using False o ne1 ne2 by (simp add: m im)
  qed
  then show ?thesis using n by (simp add: matching_inv_def)
qed

lemma matching_inv_inj:
  assumes inv: "matching_inv g" and u: "u < Gn g" "isMatched g u" and v: "v < Gn g" "isMatched g v"
    and eq: "mate g u = mate g v"
  shows "u = v"
proof -
  have pu: "mate g u = u \<or> mate g (mate g u) = u \<or> mate g (mate g (mate g u)) = u"
    using inv u by (simp add: matching_inv_def)
  have pv: "mate g v = v \<or> mate g (mate g v) = v \<or> mate g (mate g (mate g v)) = v"
    using inv v by (simp add: matching_inv_def)
  from pu pv eq show ?thesis by metis
qed

text \<open>
  What the matching strategies need from \<open>createCommunityMatch\<close>: applied to a matched
  vertex \<open>a\<close> and an unmatched vertex \<open>b\<close> it keeps the invariant, the structure of the
  graph, the matched vertices and \<open>singleton\<close>.  The model above meets this contract.
\<close>

definition ccm_contract :: "(Graph \<Rightarrow> nat \<Rightarrow> nat \<Rightarrow> MatchType \<Rightarrow> Graph) \<Rightarrow> bool" where
  "ccm_contract ccm =
     (\<forall>g a b t. matching_inv g \<and> a < Gn g \<and> b < Gn g \<and> isMatched g a \<and> \<not> isMatched g b \<longrightarrow>
        matching_inv (ccm g a b t) \<and> extends g (ccm g a b t) \<and>
        singleton (ccm g a b t) = singleton g)"

lemma createCommunityMatch_contract: "ccm_contract createCommunityMatch"
  unfolding ccm_contract_def
proof (intro allI impI, elim conjE)
  fix g a b t
  assume inv: "matching_inv g" and a: "a < Gn g" and b: "b < Gn g"
    and ma: "isMatched g a" and ub: "\<not> isMatched g b"
  have len: "length (matching g) = Gn g" using inv by (simp add: matching_inv_def)
  have old: "mate g v < Gn g \<and> isMatched g (mate g v) \<and>
         (mate g v = v \<or> mate g (mate g v) = v \<or> mate g (mate g (mate g v)) = v)"
    if "v < Gn g" "isMatched g v" for v
    using inv that by (simp add: matching_inv_def)
  define x where "x = mate g a"
  define y where "y = mate g x"
  have x: "x < Gn g" "isMatched g x" using old [OF a ma] by (simp_all add: x_def)
  have y: "y < Gn g" "isMatched g y" using old [OF x] by (simp_all add: y_def)
  have nb: "a \<noteq> b" "x \<noteq> b" "y \<noteq> b" using ma ub x y by auto
  have inj: "u = v" if "u < Gn g" "isMatched g u" "v < Gn g" "isMatched g v" "mate g u = mate g v"
    for u v using matching_inv_inj [OF inv that] .
  let ?g' = "createCommunityMatch g a b t"
  show "matching_inv ?g' \<and> extends g ?g' \<and> singleton ?g' = singleton g"
  proof (cases "mate g y = a")
    case True
    have r: "?g' = createMatch (g \<lparr> matching := (matching g)[x := a + 1] \<rparr>) y b t"
      using True by (simp add: createCommunityMatch_def Let_def mate_def x_def y_def)
    have m': "\<And>v. mate ?g' v = (if v = b then y else if v = y then b else if v = x then a else mate g v)"
      unfolding r using x(1) y(1) b len
      by (auto simp: mate_def getMatch_def createMatch_def nth_list_update)
    have i': "\<And>v. isMatched ?g' v \<longleftrightarrow> v = b \<or> v = y \<or> v = x \<or> isMatched g v"
      unfolding r using x(1) y(1) b len
      by (auto simp: isMatched_def createMatch_def nth_list_update)
    have fr: "Gn ?g' = Gn g" "length (matching ?g') = Gn g" "Gnz ?g' = Gnz g" "Gp ?g' = Gp g"
      "Gi ?g' = Gi g" "Gx ?g' = Gx g" "Gw ?g' = Gw g" "singleton ?g' = singleton g"
      unfolding r using len by (simp_all add: createMatch_def)
    have closed: "mate g v \<noteq> a \<and> mate g v \<noteq> x \<and> mate g v \<noteq> y"
      if v: "v < Gn g" "isMatched g v" "v \<noteq> a" "v \<noteq> x" "v \<noteq> y" for v
      using inj [OF v(1,2) y] inj [OF v(1,2) a ma] inj [OF v(1,2) x] v(3-5) True
      by (auto simp: x_def y_def)
    have "mate ?g' v < Gn g \<and> isMatched ?g' (mate ?g' v) \<and>
         (mate ?g' v = v \<or> mate ?g' (mate ?g' v) = v \<or> mate ?g' (mate ?g' (mate ?g' v)) = v)"
      if v: "v < Gn g" "isMatched ?g' v" for v
    proof (cases "v = b \<or> v = y \<or> v = x \<or> v = a")
      case vS: True
      have ax: "mate g a = x" and xy: "mate g x = y" by (simp_all add: x_def y_def)
      have mb: "mate ?g' b = y" and my: "mate ?g' y = b"
        and mx: "x \<noteq> y \<Longrightarrow> mate ?g' x = a"
        and ma': "a \<noteq> y \<Longrightarrow> a \<noteq> x \<Longrightarrow> mate ?g' a = x"
        using m' [of b] m' [of y] m' [of x] m' [of a] nb ax by simp_all
      have im: "isMatched ?g' a" "isMatched ?g' b" "isMatched ?g' x" "isMatched ?g' y"
        using i' [of a] i' [of b] i' [of x] i' [of y] ma by simp_all
      have "a = x \<and> x = y \<or> a \<noteq> x \<and> x \<noteq> y \<and> a \<noteq> y"
        using ax xy True by metis
      then show ?thesis
      proof
        assume all_eq: "a = x \<and> x = y"
        have "v = y \<or> v = b" using vS all_eq by auto
        then show ?thesis using mb my im y(1) b by auto
      next
        assume d: "a \<noteq> x \<and> x \<noteq> y \<and> a \<noteq> y"
        show ?thesis using vS d mb my mx ma' im a b x(1) y(1) by auto
      qed
    next
      case False
      then have mv: "isMatched g v" using v(2) i' by simp
      note o = old [OF v(1) mv]
      have c1: "mate g v \<noteq> a \<and> mate g v \<noteq> x \<and> mate g v \<noteq> y" "mate g v \<noteq> b"
        using closed [OF v(1) mv] False o ub by auto
      have o2: "mate g (mate g v) < Gn g \<and> isMatched g (mate g (mate g v))"
        using old [of "mate g v"] o by simp
      have c2: "mate g (mate g v) \<noteq> a \<and> mate g (mate g v) \<noteq> x \<and> mate g (mate g v) \<noteq> y"
        "mate g (mate g v) \<noteq> b"
        using closed [of "mate g v"] o c1 o2 ub by auto
      show ?thesis using False o c1 c2 by (simp add: m' i')
    qed
    then have "matching_inv ?g'" using fr by (simp add: matching_inv_def)
    moreover have "extends g ?g'" using fr i' len by (simp add: extends_def)
    ultimately show ?thesis using fr by simp
  next
    case False
    have xa: "x \<noteq> a" and ya: "y = a"
      using old [OF a ma] False by (auto simp: x_def y_def)
    have r: "?g' = g \<lparr> matching := (matching g)[b := matching g ! a, a := b + 1],
               matchmap := (matchmap g)[b := matchmap g ! a] \<rparr>"
      using False by (simp add: createCommunityMatch_def Let_def mate_def x_def y_def)
    have m': "\<And>v. mate ?g' v = (if v = a then b else if v = b then x else mate g v)"
      unfolding r using a b len
      by (auto simp: mate_def getMatch_def nth_list_update x_def)
    have i': "\<And>v. isMatched ?g' v \<longleftrightarrow> v = a \<or> v = b \<or> isMatched g v"
      unfolding r using a b len ma
      by (auto simp: isMatched_def nth_list_update)
    have fr: "Gn ?g' = Gn g" "length (matching ?g') = Gn g" "Gnz ?g' = Gnz g" "Gp ?g' = Gp g"
      "Gi ?g' = Gi g" "Gx ?g' = Gx g" "Gw ?g' = Gw g" "singleton ?g' = singleton g"
      unfolding r using len by simp_all
    have mx: "mate g x = a" using ya by (simp add: y_def)
    have closed: "mate g v \<noteq> a \<and> mate g v \<noteq> x"
      if v: "v < Gn g" "isMatched g v" "v \<noteq> a" "v \<noteq> x" for v
      using inj [OF v(1,2) a ma] inj [OF v(1,2) x] v(3,4) mx
      by (auto simp: x_def)
    have "mate ?g' v < Gn g \<and> isMatched ?g' (mate ?g' v) \<and>
         (mate ?g' v = v \<or> mate ?g' (mate ?g' v) = v \<or> mate ?g' (mate ?g' (mate ?g' v)) = v)"
      if v: "v < Gn g" "isMatched ?g' v" for v
    proof (cases "v = b \<or> v = x \<or> v = a")
      case vS: True
      have "mate ?g' a = b" "mate ?g' b = x" "mate ?g' x = a"
          "isMatched ?g' a" "isMatched ?g' b" "isMatched ?g' x"
        using m' [of a] m' [of b] m' [of x] i' [of a] i' [of b] i' [of x] nb xa mx x(2)
        by simp_all
      then show ?thesis using vS a b x(1) by auto
    next
      case False
      then have mv: "isMatched g v" using v(2) i' by simp
      note o = old [OF v(1) mv]
      have c1: "mate g v \<noteq> a \<and> mate g v \<noteq> x" "mate g v \<noteq> b"
        using closed [OF v(1) mv] False o ub by auto
      have o2: "mate g (mate g v) < Gn g \<and> isMatched g (mate g (mate g v))"
        using old [of "mate g v"] o by simp
      have c2: "mate g (mate g v) \<noteq> a \<and> mate g (mate g v) \<noteq> x"
        "mate g (mate g v) \<noteq> b"
        using closed [of "mate g v"] o c1 o2 ub by auto
      show ?thesis using False o c1 c2 by (simp add: m' i')
    qed
    then have "matching_inv ?g'" using fr by (simp add: matching_inv_def)
    moreover have "extends g ?g'" using fr i' len by (simp add: extends_def)
    ultimately show ?thesis using fr by simp
  qed
qed

subsection \<open>The strategies keep the matching invariant\<close>

definition pending_ok :: "Graph \<Rightarrow> int \<Rightarrow> bool" where
  "pending_ok g v = (v = - 1 \<or> (0 \<le> v \<and> nat v < Gn g \<and> \<not> isMatched g (nat v)))"

definition step_ok :: "Graph \<Rightarrow> Graph \<Rightarrow> bool" where
  "step_ok g g' = (extends g g' \<and> matching_inv g' \<and> singleton g' = singleton g)"

lemma step_ok_refl: "matching_inv g \<Longrightarrow> step_ok g g"
  by (simp add: step_ok_def)

lemma step_ok_trans: "step_ok g g' \<Longrightarrow> step_ok g' g'' \<Longrightarrow> step_ok g g''"
  unfolding step_ok_def using extends_trans by auto

lemma step_ok_createMatch:
  assumes "matching_inv g" "a < Gn g" "b < Gn g" "\<not> isMatched g a" "\<not> isMatched g b"
  shows "step_ok g (createMatch g a b t)"
proof -
  have "length (matching g) = Gn g" using assms(1) by (simp add: matching_inv_def)
  then have "extends g (createMatch g a b t)"
    using assms(2,3) by (simp add: extends_createMatch)
  then show ?thesis
    using matching_inv_createMatch [OF assms] by (simp add: step_ok_def)
qed

lemma Random_inner_cases:
  "fold (matching_Random_inner k) qs (g, True) = (g, True) \<or>
   (\<exists>q \<in> set qs. \<not> isMatched g (Gi g ! q) \<and>
      fold (matching_Random_inner k) qs (g, True) =
        (createMatch g k (Gi g ! q) MatchType_Standard, False))"
proof (induction qs)
  case Nil
  show ?case by simp
next
  case (Cons q qs)
  show ?case
  proof (cases "isMatched g (Gi g ! q)")
    case True
    then have "fold (matching_Random_inner k) (q # qs) (g, True) =
               fold (matching_Random_inner k) qs (g, True)"
      by (simp add: matching_Random_inner_def)
    with Cons show ?thesis by auto
  next
    case False
    then have "fold (matching_Random_inner k) (q # qs) (g, True) =
        (createMatch g k (Gi g ! q) MatchType_Standard, False)"
      by (simp add: matching_Random_inner_def Random_inner_done)
    with False show ?thesis by auto
  qed
qed

lemma Random_step_ok:
  assumes inv: "matching_inv g" and k: "k < Gn g"
    and nb: "\<forall>q \<in> set (column g k). Gi g ! q < Gn g"
  shows "step_ok g (matching_Random_step k g)"
proof (cases "isMatched g k")
  case True
  then show ?thesis using inv by (simp add: matching_Random_step_def step_ok_refl)
next
  case False
  from Random_inner_cases [of k "column g k" g] show ?thesis
  proof
    assume "fold (matching_Random_inner k) (column g k) (g, True) = (g, True)"
    then show ?thesis using False inv by (simp add: matching_Random_step_def step_ok_refl)
  next
    assume "\<exists>q \<in> set (column g k). \<not> isMatched g (Gi g ! q) \<and>
      fold (matching_Random_inner k) (column g k) (g, True) =
        (createMatch g k (Gi g ! q) MatchType_Standard, False)"
    then obtain q where q: "q \<in> set (column g k)" "\<not> isMatched g (Gi g ! q)"
      "fold (matching_Random_inner k) (column g k) (g, True) =
        (createMatch g k (Gi g ! q) MatchType_Standard, False)" by blast
    have "matching_Random_step k g = createMatch g k (Gi g ! q) MatchType_Standard"
      using False q(3) by (simp add: matching_Random_step_def)
    then show ?thesis
      using step_ok_createMatch [OF inv k _ False q(2)] nb q(1) by simp
  qed
qed

lemma HEM_step_ok:
  assumes inv: "matching_inv g" and k: "k < Gn g"
    and nb: "\<forall>q \<in> set (column g k). Gi g ! q < Gn g"
  shows "step_ok g (matching_HEM_step k g)"
proof (cases "isMatched g k")
  case True
  then show ?thesis using inv by (simp add: matching_HEM_step_def step_ok_refl)
next
  case False
  obtain hn' hw' where r: "fold (matching_HEM_inner g) (column g k) (- 1, - 1) = (hn', hw')"
    by (cases "fold (matching_HEM_inner g) (column g k) (- 1, - 1)") auto
  from HEM_inner [where g = g and qs = "column g k" and hn = "- 1" and hw = "- 1"] r
  consider (none) "hn' = - 1"
    | (some) q where "q \<in> set (column g k)" "hn' = int (Gi g ! q)" "\<not> isMatched g (Gi g ! q)"
    by auto
  then show ?thesis
  proof cases
    case none
    then have "matching_HEM_step k g = g"
      using False r by (simp add: matching_HEM_step_def)
    then show ?thesis using inv by (simp add: step_ok_refl)
  next
    case some
    have "matching_HEM_step k g = createMatch g k (Gi g ! q) MatchType_Standard"
      using False r some(2) by (simp add: matching_HEM_step_def)
    then show ?thesis
      using step_ok_createMatch [OF inv k _ False some(3)] nb some(1) by simp
  qed
qed

lemma step_ok_valid_neighbors:
  "step_ok g g' \<Longrightarrow> valid_neighbors g \<Longrightarrow> valid_neighbors g'"
  by (simp add: step_ok_def extends_def valid_neighbors_def column_def)

lemma vertex_loop_ok:
  assumes inv: "matching_inv g"
    and step: "\<And>k t. k < Gn g \<Longrightarrow> step_ok g t \<Longrightarrow> step_ok t (f k t)"
  shows "step_ok g (fold f [0 ..< Gn g] g)"
proof (rule fold_upt_invariant [where I = "\<lambda>k t. step_ok g t"])
  show "step_ok g g" using inv by (rule step_ok_refl)
next
  fix k t assume "k < Gn g" "step_ok g t"
  then show "step_ok g (f k t)" using step step_ok_trans by blast
qed

lemma matching_Random_ok:
  assumes "matching_inv g" "valid_neighbors g"
  shows "step_ok g (matching_Random g opts)"
  unfolding matching_Random_def
proof (rule vertex_loop_ok [OF assms(1)])
  fix k t assume k: "k < Gn g" and t: "step_ok g t"
  have "Gn t = Gn g" "matching_inv t" "valid_neighbors t"
    using t step_ok_valid_neighbors [OF t assms(2)] by (simp_all add: step_ok_def extends_def)
  then show "step_ok t (matching_Random_step k t)"
    using k by (intro Random_step_ok) (simp_all add: valid_neighbors_def)
qed

lemma matching_HEM_ok:
  assumes "matching_inv g" "valid_neighbors g"
  shows "step_ok g (matching_HEM g opts)"
  unfolding matching_HEM_def
proof (rule vertex_loop_ok [OF assms(1)])
  fix k t assume k: "k < Gn g" and t: "step_ok g t"
  have "Gn t = Gn g" "matching_inv t" "valid_neighbors t"
    using t step_ok_valid_neighbors [OF t assms(2)] by (simp_all add: step_ok_def extends_def)
  then show "step_ok t (matching_HEM_step k t)"
    using k by (intro HEM_step_ok) (simp_all add: valid_neighbors_def)
qed

subsection \<open>Pairing the unmatched neighbours of a vertex\<close>

lemma brotherly_fold:
  assumes "matching_inv g" "pending_ok g v" "\<forall>q \<in> set qs. Gi g ! q < Gn g"
  shows "step_ok g (fst (fold brotherly_inner qs (g, v))) \<and>
         pending_ok (fst (fold brotherly_inner qs (g, v))) (snd (fold brotherly_inner qs (g, v)))"
  using assms
proof (induction qs arbitrary: g v)
  case Nil
  then show ?case by (simp add: step_ok_refl)
next
  case (Cons q qs)
  let ?nb = "Gi g ! q"
  have nb: "?nb < Gn g" using Cons.prems(3) by simp
  consider (skip) "isMatched g ?nb" | (hold) "\<not> isMatched g ?nb" "v = - 1"
    | (pair) "\<not> isMatched g ?nb" "v \<noteq> - 1" by blast
  then show ?case
  proof cases
    case skip
    then have "fold brotherly_inner (q # qs) (g, v) = fold brotherly_inner qs (g, v)"
      by (simp add: brotherly_inner_def)
    then show ?thesis using Cons.IH [OF Cons.prems(1,2)] Cons.prems(3) by simp
  next
    case hold
    then have e: "fold brotherly_inner (q # qs) (g, v) = fold brotherly_inner qs (g, int ?nb)"
      by (simp add: brotherly_inner_def)
    have "pending_ok g (int ?nb)" using hold(1) nb by (simp add: pending_ok_def)
    then show ?thesis using Cons.IH [OF Cons.prems(1)] Cons.prems(3) e by simp
  next
    case pair
    let ?g1 = "createMatch g (nat v) ?nb MatchType_Brotherly"
    have e: "fold brotherly_inner (q # qs) (g, v) = fold brotherly_inner qs (?g1, - 1)"
      using pair by (simp add: brotherly_inner_def)
    have v: "nat v < Gn g" "\<not> isMatched g (nat v)"
      using Cons.prems(2) pair(2) by (simp_all add: pending_ok_def)
    have s1: "step_ok g ?g1"
      by (rule step_ok_createMatch [OF Cons.prems(1) v(1) nb v(2) pair(1)])
    have "matching_inv ?g1" "pending_ok ?g1 (- 1)" "\<forall>q \<in> set qs. Gi ?g1 ! q < Gn ?g1"
      using s1 Cons.prems(3) by (simp_all add: step_ok_def pending_ok_def extends_def)
    from Cons.IH [OF this] s1 show ?thesis
      unfolding e using step_ok_trans by blast
  qed
qed

lemma resolve_leftover_ok:
  assumes c: "ccm_contract ccm" and inv: "matching_inv g" and v: "pending_ok g v"
    and h: "h < Gn g" "doCommunityMatching opts \<longrightarrow> isMatched g h"
  shows "step_ok g (resolve_leftover ccm opts h (g, v))"
proof (cases "v = - 1")
  case True
  then show ?thesis using inv by (simp add: resolve_leftover_def step_ok_refl)
next
  case False
  then have v': "nat v < Gn g" "\<not> isMatched g (nat v)"
    using v by (simp_all add: pending_ok_def)
  show ?thesis
  proof (cases "doCommunityMatching opts")
    case True
    then have "resolve_leftover ccm opts h (g, v) = ccm g h (nat v) MatchType_Community"
      using False by (simp add: resolve_leftover_def)
    moreover have "isMatched g h" using True h(2) by simp
    ultimately show ?thesis
      using c inv h(1) v' unfolding ccm_contract_def step_ok_def by simp
  next
    case nc: False
    then have "resolve_leftover ccm opts h (g, v) = createMatch g (nat v) (nat v) MatchType_Orphan"
      using False by (simp add: resolve_leftover_def)
    then show ?thesis using step_ok_createMatch [OF inv v'(1) v'(1) v'(2) v'(2)] by simp
  qed
qed

lemma pair_neighbours_ok:
  assumes c: "ccm_contract ccm" and inv: "matching_inv g"
    and h: "h < Gn g" "doCommunityMatching opts \<longrightarrow> isMatched g h"
    and nb: "\<forall>q \<in> set (column g h). Gi g ! q < Gn g"
  shows "step_ok g (resolve_leftover ccm opts h (fold brotherly_inner (column g h) (g, - 1)))"
proof -
  let ?r = "fold brotherly_inner (column g h) (g, - 1)"
  have p: "pending_ok g (- 1)" by (simp add: pending_ok_def)
  have b: "step_ok g (fst ?r)" "pending_ok (fst ?r) (snd ?r)"
    using brotherly_fold [OF inv p nb] by simp_all
  have "step_ok (fst ?r) (resolve_leftover ccm opts h (fst ?r, snd ?r))"
  proof (rule resolve_leftover_ok [OF c _ b(2)])
    show "matching_inv (fst ?r)" using b(1) by (simp add: step_ok_def)
    show "h < Gn (fst ?r)" using b(1) h(1) by (simp add: step_ok_def extends_def)
    show "doCommunityMatching opts \<longrightarrow> isMatched (fst ?r) h"
      using b(1) h(2) by (simp add: step_ok_def extends_def)
  qed
  with b(1) show ?thesis using step_ok_trans by simp
qed

lemma PA_heaviest:
  "fst (fold (matching_PA_heaviest g) qs (hn, hw)) = hn \<or>
   (\<exists>q \<in> set qs. fst (fold (matching_PA_heaviest g) qs (hn, hw)) = int (Gi g ! q))"
proof (induction qs arbitrary: hn hw)
  case Nil
  show ?case by simp
next
  case (Cons q qs)
  show ?case
    using Cons.IH [of hn hw] Cons.IH [of "int (Gi g ! q)" "edgeWeightAt g q"]
    by (auto simp: matching_PA_heaviest_def Let_def)
qed

lemma PA_step_ok:
  assumes c: "ccm_contract ccm" and inv: "matching_inv g" and vn: "valid_neighbors g"
    and k: "k < Gn g"
    and mx: "isMatched g k \<or> (\<forall>q \<in> set (column g k). isMatched g (Gi g ! q))"
  shows "step_ok g (matching_PA_step ccm opts k g)"
proof (cases "isMatched g k")
  case True
  then show ?thesis using inv by (simp add: matching_PA_step_def step_ok_refl)
next
  case False
  let ?hn = "fst (fold (matching_PA_heaviest g) (column g k) (- 1, - 1))"
  show ?thesis
  proof (cases "?hn = - 1")
    case True
    then show ?thesis using False inv by (simp add: matching_PA_step_def step_ok_refl)
  next
    case ne: False
    with PA_heaviest [of g "column g k" "- 1" "- 1"]
    obtain q where q: "q \<in> set (column g k)" "?hn = int (Gi g ! q)" by auto
    have h: "nat ?hn < Gn g" "isMatched g (nat ?hn)"
      using q vn k mx False by (auto simp: valid_neighbors_def)
    have "step_ok g (resolve_leftover ccm opts (nat ?hn)
             (fold brotherly_inner (column g (nat ?hn)) (g, - 1)))"
      using pair_neighbours_ok [OF c inv h(1)] h(2) vn h(1)
      by (simp add: valid_neighbors_def)
    then show ?thesis using False ne by (simp add: matching_PA_step_def Let_def)
  qed
qed

lemma DavisPA_step_ok:
  assumes c: "ccm_contract ccm" and inv: "matching_inv g" and vn: "valid_neighbors g"
    and k: "k < Gn g"
  shows "step_ok g (matching_DavisPA_step ccm opts bt k g)"
proof (cases "isMatched g k \<and> degree g k \<ge> trunc_to_Int bt")
  case True
  have "step_ok g (resolve_leftover ccm opts k (fold brotherly_inner (column g k) (g, - 1)))"
    using pair_neighbours_ok [OF c inv k] True vn k by (simp add: valid_neighbors_def)
  then show ?thesis using True by (simp add: matching_DavisPA_step_def)
next
  case False
  then show ?thesis using inv by (auto simp: matching_DavisPA_step_def step_ok_refl)
qed

lemma maximal_extends:
  assumes "maximal_matching g" "extends g g'" "k < Gn g"
  shows "isMatched g' k \<or> (\<forall>q \<in> set (column g' k). isMatched g' (Gi g' ! q))"
  using assms by (auto simp: maximal_matching_def extends_def column_def)

lemma matching_PA_ok:
  assumes c: "ccm_contract ccm" and inv: "matching_inv g" and vn: "valid_neighbors g"
    and mx: "maximal_matching g"
  shows "step_ok g (matching_PA ccm g opts)"
  unfolding matching_PA_def
proof (rule vertex_loop_ok [OF inv])
  fix k t assume k: "k < Gn g" and t: "step_ok g t"
  have e: "extends g t" using t by (simp add: step_ok_def)
  have "Gn t = Gn g" "matching_inv t" "valid_neighbors t"
    using t step_ok_valid_neighbors [OF t vn] by (simp_all add: step_ok_def extends_def)
  then show "step_ok t (matching_PA_step ccm opts k t)"
    using k maximal_extends [OF mx e k] by (intro PA_step_ok [OF c]) simp_all
qed

lemma matching_DavisPA_ok:
  assumes c: "ccm_contract ccm" and inv: "matching_inv g" and vn: "valid_neighbors g"
  shows "step_ok g (matching_DavisPA ccm g opts)"
  unfolding matching_DavisPA_def Let_def
proof (rule vertex_loop_ok [OF inv])
  fix k t assume k: "k < Gn g" and t: "step_ok g t"
  have "Gn t = Gn g" "matching_inv t" "valid_neighbors t"
    using t step_ok_valid_neighbors [OF t vn] by (simp_all add: step_ok_def extends_def)
  then show "step_ok t (matching_DavisPA_step ccm opts
       (davisBrotherlyThreshold opts * (real (Gnz g) / real (Gn g))) k t)"
    using k by (intro DavisPA_step_ok [OF c]) simp_all
qed

subsection \<open>The clean-up loop\<close>

text \<open>
  \<open>isolated_unmatched g m\<close> lists, in increasing order, the vertices below \<open>m\<close> that
  are unmatched and have degree zero.  The loop pairs them up in this order:
  \<open>cleanup_partner vs i\<close> is the partner of the \<open>i\<close>-th of them, the vertex itself
  when it is the last of an odd number.
\<close>

definition isolated_unmatched :: "Graph \<Rightarrow> nat \<Rightarrow> nat list" where
  "isolated_unmatched g m = filter (\<lambda>k. \<not> isMatched g k \<and> degree g k = 0) [0 ..< m]"

definition cleanup_partner :: "nat list \<Rightarrow> nat \<Rightarrow> nat" where
  "cleanup_partner vs i =
     (if odd i then vs ! (i - 1) else if i + 1 < length vs then vs ! (i + 1) else vs ! i)"

text \<open>The state of the clean-up loop before it visits vertex \<open>m\<close>.\<close>

definition cleanup_state :: "Graph \<Rightarrow> nat \<Rightarrow> Graph \<Rightarrow> bool" where
  "cleanup_state g m t =
     (let vs = isolated_unmatched g m in
      Gn t = Gn g \<and> Gp t = Gp g \<and> length (matching t) = Gn g \<and>
      singleton t = (if even (length vs) then - 1 else int (last vs)) \<and>
      (\<forall>k < Gn g. m \<le> k \<or> isMatched g k \<longrightarrow> matching t ! k = matching g ! k) \<and>
      (\<forall>k < m. \<not> isMatched g k \<and> degree g k \<noteq> 0 \<longrightarrow> matching t ! k = k + 1) \<and>
      (\<forall>i < length vs. matching t ! (vs ! i) =
          (if even i \<and> i + 1 = length vs then 0 else cleanup_partner vs i + 1)))"

lemma isolated_unmatched_Suc:
  "isolated_unmatched g (Suc m) =
     (if \<not> isMatched g m \<and> degree g m = 0 then isolated_unmatched g m @ [m]
      else isolated_unmatched g m)"
  by (simp add: isolated_unmatched_def)

lemma isolated_unmatched_nth:
  assumes "i < length (isolated_unmatched g m)"
  shows "isolated_unmatched g m ! i < m \<and> \<not> isMatched g (isolated_unmatched g m ! i) \<and>
         degree g (isolated_unmatched g m ! i) = 0"
proof -
  have "isolated_unmatched g m ! i \<in> set (isolated_unmatched g m)"
    using assms by simp
  then show ?thesis by (simp add: isolated_unmatched_def)
qed

lemma isolated_unmatched_distinct: "distinct (isolated_unmatched g m)"
  by (simp add: isolated_unmatched_def)

lemma matching_createMatch_same:
  "matching (createMatch g a a t) = (matching g)[a := a + 1]"
  by (simp add: createMatch_def)

lemma cleanup_state_step:
  assumes m: "m < Gn g" and st: "cleanup_state g m t"
  shows "cleanup_state g (Suc m) (matching_Cleanup_step m t)"
proof -
  let ?iso = "isolated_unmatched g m"
  let ?L = "length ?iso"
  have fr: "Gn t = Gn g" "Gp t = Gp g" "length (matching t) = Gn g"
    and sg: "singleton t = (if even ?L then - 1 else int (last ?iso))"
    and P1: "\<And>k. k < Gn g \<Longrightarrow> m \<le> k \<or> isMatched g k \<Longrightarrow> matching t ! k = matching g ! k"
    and P3: "\<And>k. k < m \<Longrightarrow> \<not> isMatched g k \<Longrightarrow> degree g k \<noteq> 0 \<Longrightarrow> matching t ! k = k + 1"
    and P4: "\<And>i. i < ?L \<Longrightarrow> matching t ! (?iso ! i) =
          (if even i \<and> i + 1 = ?L then 0 else cleanup_partner ?iso i + 1)"
    using st unfolding cleanup_state_def Let_def by blast+
  have mm: "isMatched t m \<longleftrightarrow> isMatched g m"
    using P1 [of m] m by (simp add: isMatched_def)
  have dg: "degree t m = degree g m" using fr by (simp add: degree_def)
  have isoP: "\<And>i. i < ?L \<Longrightarrow> ?iso ! i < m \<and> \<not> isMatched g (?iso ! i) \<and> degree g (?iso ! i) = 0"
    by (rule isolated_unmatched_nth)
  consider (A) "isMatched g m" | (B) "\<not> isMatched g m" "degree g m \<noteq> 0"
    | (C) "\<not> isMatched g m" "degree g m = 0" "even ?L"
    | (D) "\<not> isMatched g m" "degree g m = 0" "odd ?L" by blast
  then show ?thesis
  proof cases
    case A
    then have "matching_Cleanup_step m t = t" "isolated_unmatched g (Suc m) = ?iso"
      using mm by (simp_all add: matching_Cleanup_step_def isolated_unmatched_Suc)
    then show ?thesis
      using fr sg P1 P3 P4 A by (auto simp: cleanup_state_def Let_def less_Suc_eq)
  next
    case B
    let ?t' = "createMatch t m m MatchType_Orphan"
    have e: "matching_Cleanup_step m t = ?t'" "isolated_unmatched g (Suc m) = ?iso"
      using mm dg B by (simp_all add: matching_Cleanup_step_def isolated_unmatched_Suc)
    have mt: "matching ?t' = (matching t)[m := m + 1]" by (rule matching_createMatch_same)
    have fr': "Gn ?t' = Gn g" "Gp ?t' = Gp g" "length (matching ?t') = Gn g"
      "singleton ?t' = singleton t"
      using fr by (simp_all add: createMatch_def)
    have Q1: "\<forall>k < Gn g. Suc m \<le> k \<or> isMatched g k \<longrightarrow> matching ?t' ! k = matching g ! k"
    proof (intro allI impI)
      fix k assume k: "k < Gn g" "Suc m \<le> k \<or> isMatched g k"
      then have "k \<noteq> m" using B(1) by auto
      moreover have "matching t ! k = matching g ! k" using P1 [of k] k by auto
      ultimately show "matching ?t' ! k = matching g ! k" by (simp add: mt)
    qed
    have Q3: "\<forall>k < Suc m. \<not> isMatched g k \<and> degree g k \<noteq> 0 \<longrightarrow> matching ?t' ! k = k + 1"
    proof (intro allI impI)
      fix k assume k: "k < Suc m" "\<not> isMatched g k \<and> degree g k \<noteq> 0"
      show "matching ?t' ! k = k + 1"
      proof (cases "k = m")
        case True
        then show ?thesis using m fr(3) by (simp add: mt)
      next
        case False
        then show ?thesis using P3 [of k] k by (simp add: mt)
      qed
    qed
    have Q4: "\<forall>i < ?L. matching ?t' ! (?iso ! i) =
          (if even i \<and> i + 1 = ?L then 0 else cleanup_partner ?iso i + 1)"
    proof (intro allI impI)
      fix i assume i: "i < ?L"
      then have "?iso ! i \<noteq> m" using isoP [of i] by simp
      then show "matching ?t' ! (?iso ! i) =
          (if even i \<and> i + 1 = ?L then 0 else cleanup_partner ?iso i + 1)"
        using P4 [OF i] by (simp add: mt)
    qed
    show ?thesis
      unfolding e cleanup_state_def Let_def e(2)
      using fr' sg Q1 Q3 Q4 by simp
  next
    case C
    let ?t' = "t \<lparr> singleton := int m \<rparr>"
    have e: "matching_Cleanup_step m t = ?t'" "isolated_unmatched g (Suc m) = ?iso @ [m]"
      using mm dg C sg by (simp_all add: matching_Cleanup_step_def isolated_unmatched_Suc)
    have m0: "matching t ! m = 0"
      using P1 [of m] m C(1) by (simp add: isMatched_def)
    have Q4: "\<forall>i < length (?iso @ [m]). matching ?t' ! ((?iso @ [m]) ! i) =
          (if even i \<and> i + 1 = length (?iso @ [m]) then 0
           else cleanup_partner (?iso @ [m]) i + 1)"
    proof (intro allI impI)
      fix i assume "i < length (?iso @ [m])"
      then consider (old) "i < ?L" | (new) "i = ?L" by fastforce
      then show "matching ?t' ! ((?iso @ [m]) ! i) =
          (if even i \<and> i + 1 = length (?iso @ [m]) then 0
           else cleanup_partner (?iso @ [m]) i + 1)"
      proof cases
        case old
        have nl: "\<not> (even i \<and> i + 1 = ?L)" using C(3) by presburger
        have i1: "even i \<Longrightarrow> i + 1 < ?L"
          using old nl by (cases "i + 1 = ?L") auto
        have "cleanup_partner (?iso @ [m]) i = cleanup_partner ?iso i"
          using old i1 by (auto simp: cleanup_partner_def nth_append)
        then show ?thesis using P4 [OF old] nl old by (simp add: nth_append)
      next
        case new
        then show ?thesis using C(3) m0 by simp
      qed
    qed
    show ?thesis
      unfolding e cleanup_state_def Let_def
      using fr P1 P3 Q4 C by (simp add: less_Suc_eq)
  next
    case D
    have Lpos: "0 < ?L" using D(3) by (cases "?L") auto
    define s where "s = last ?iso"
    have s_nth: "s = ?iso ! (?L - 1)"
      using Lpos by (simp add: s_def last_conv_nth)
    have sP: "s < m" "\<not> isMatched g s" "degree g s = 0"
      using isoP [of "?L - 1"] Lpos by (simp_all add: s_nth)
    have sgs: "singleton t = int s" using sg D(3) by (simp add: s_def)
    let ?t' = "(createMatch t m s MatchType_Standard) \<lparr> singleton := - 1 \<rparr>"
    have e: "matching_Cleanup_step m t = ?t'" "isolated_unmatched g (Suc m) = ?iso @ [m]"
      using mm dg D sgs by (simp_all add: matching_Cleanup_step_def isolated_unmatched_Suc)
    have mt: "matching ?t' = (matching t)[m := s + 1, s := m + 1]"
      by (simp add: createMatch_def)
    have fr': "Gn ?t' = Gn g" "Gp ?t' = Gp g" "length (matching ?t') = Gn g" "singleton ?t' = - 1"
      using fr by (simp_all add: createMatch_def)
    have sm: "s \<noteq> m" "s < Gn g" using sP(1) m by simp_all
    have Q1: "\<forall>k < Gn g. Suc m \<le> k \<or> isMatched g k \<longrightarrow> matching ?t' ! k = matching g ! k"
    proof (intro allI impI)
      fix k assume k: "k < Gn g" "Suc m \<le> k \<or> isMatched g k"
      then have "k \<noteq> m" "k \<noteq> s" using D(1) sP(1,2) by auto
      moreover have "matching t ! k = matching g ! k" using P1 [of k] k by auto
      ultimately show "matching ?t' ! k = matching g ! k" by (simp add: mt)
    qed
    have Q3: "\<forall>k < Suc m. \<not> isMatched g k \<and> degree g k \<noteq> 0 \<longrightarrow> matching ?t' ! k = k + 1"
    proof (intro allI impI)
      fix k assume k: "k < Suc m" "\<not> isMatched g k \<and> degree g k \<noteq> 0"
      then have "k \<noteq> m" "k \<noteq> s" using D(2) sP(3) by auto
      then show "matching ?t' ! k = k + 1" using P3 [of k] k by (simp add: mt)
    qed
    have Q4: "\<forall>i < length (?iso @ [m]). matching ?t' ! ((?iso @ [m]) ! i) =
          (if even i \<and> i + 1 = length (?iso @ [m]) then 0
           else cleanup_partner (?iso @ [m]) i + 1)"
    proof (intro allI impI)
      fix i assume "i < length (?iso @ [m])"
      then consider (old) "i + 1 < ?L" | (lst) "i + 1 = ?L" | (new) "i = ?L" by fastforce
      then show "matching ?t' ! ((?iso @ [m]) ! i) =
          (if even i \<and> i + 1 = length (?iso @ [m]) then 0
           else cleanup_partner (?iso @ [m]) i + 1)"
      proof cases
        case old
        then have il: "i < ?L" by simp
        have "?iso ! i \<noteq> ?iso ! (?L - 1)"
          using isolated_unmatched_distinct [of g m] il Lpos old
          by (simp add: nth_eq_iff_index_eq)
        then have ne: "?iso ! i \<noteq> s" "?iso ! i \<noteq> m"
          using isoP [OF il] by (simp_all add: s_nth)
        have "cleanup_partner (?iso @ [m]) i = cleanup_partner ?iso i"
          using old by (auto simp: cleanup_partner_def nth_append)
        then show ?thesis using P4 [OF il] ne old il D(3) by (auto simp: mt nth_append)
      next
        case lst
        then have il: "i < ?L" by simp
        have ev: "even i" using lst D(3) by presburger
        have "?L - 1 = i" using lst by simp
        then have eqs: "?iso ! i = s" by (simp add: s_nth)
        have "cleanup_partner (?iso @ [m]) i = m"
          using lst ev by (simp add: cleanup_partner_def nth_append)
        then show ?thesis using eqs il sm fr(3) lst by (simp add: mt nth_append)
      next
        case new
        then have od: "odd i" using D(3) by simp
        have "cleanup_partner (?iso @ [m]) i = s"
          using new od Lpos by (simp add: cleanup_partner_def nth_append s_nth)
        then show ?thesis using new od sm m fr(3) by (simp add: mt nth_append)
      qed
    qed
    have ev': "even (length (?iso @ [m]))" using D(3) by simp
    show ?thesis
      unfolding e cleanup_state_def Let_def
      using fr' Q1 Q3 Q4 ev' by simp
  qed
qed

definition cleanup_ok :: "Graph \<Rightarrow> nat \<Rightarrow> Graph \<Rightarrow> bool" where
  "cleanup_ok g m t =
     (extends g t \<and> matching_inv t \<and>
      (singleton t = - 1 \<or>
       (0 \<le> singleton t \<and> nat (singleton t) < m \<and> \<not> isMatched t (nat (singleton t)))) \<and>
      (\<forall>k < m. isMatched t k \<or> singleton t = int k))"

lemma isMatched_singleton_update [simp]:
  "isMatched (t \<lparr> singleton := s \<rparr>) = isMatched t"
  by (rule ext) (simp add: isMatched_def)

lemma matching_inv_singleton_update [simp]:
  "matching_inv (t \<lparr> singleton := s \<rparr>) = matching_inv t"
  by (simp add: matching_inv_def mate_def getMatch_def)

lemma extends_singleton_update [simp]:
  "extends g (t \<lparr> singleton := s \<rparr>) = extends g t"
  by (simp add: extends_def)

lemma cleanup_ok_step:
  assumes m: "m < Gn g" and ok: "cleanup_ok g m t"
  shows "cleanup_ok g (Suc m) (matching_Cleanup_step m t)"
proof -
  have e: "extends g t" and inv: "matching_inv t"
    and sg: "singleton t = - 1 \<or>
       (0 \<le> singleton t \<and> nat (singleton t) < m \<and> \<not> isMatched t (nat (singleton t)))"
    and dn: "\<And>k. k < m \<Longrightarrow> isMatched t k \<or> singleton t = int k"
    using ok unfolding cleanup_ok_def by blast+
  have n: "Gn t = Gn g" using e by (simp add: extends_def)
  have mt: "m < Gn t" using m n by simp
  consider (A) "isMatched t m"
    | (B) "\<not> isMatched t m" "degree t m \<noteq> 0"
    | (C) "\<not> isMatched t m" "degree t m = 0" "singleton t = - 1"
    | (D) "\<not> isMatched t m" "degree t m = 0" "singleton t \<noteq> - 1" by blast
  then show ?thesis
  proof cases
    case A
    then have "matching_Cleanup_step m t = t" by (simp add: matching_Cleanup_step_def)
    moreover have "singleton t = - 1 \<or>
       (0 \<le> singleton t \<and> nat (singleton t) < Suc m \<and> \<not> isMatched t (nat (singleton t)))"
      using sg by auto
    moreover have "\<forall>k < Suc m. isMatched t k \<or> singleton t = int k"
      using dn A by (auto simp: less_Suc_eq)
    ultimately show ?thesis using e inv unfolding cleanup_ok_def by simp
  next
    case B
    let ?t' = "createMatch t m m MatchType_Orphan"
    have r: "matching_Cleanup_step m t = ?t'" using B by (simp add: matching_Cleanup_step_def)
    have s: "step_ok t ?t'" by (rule step_ok_createMatch [OF inv mt mt B(1) B(1)])
    have len: "m < length (matching t)" using inv mt by (simp add: matching_inv_def)
    have im: "\<And>v. isMatched ?t' v \<longleftrightarrow> v = m \<or> isMatched t v"
      using isMatched_createMatch [OF len len] by simp
    have "singleton ?t' = - 1 \<or>
       (0 \<le> singleton ?t' \<and> nat (singleton ?t') < Suc m \<and> \<not> isMatched ?t' (nat (singleton ?t')))"
      using sg by (auto simp: im)
    moreover have "\<forall>k < Suc m. isMatched ?t' k \<or> singleton ?t' = int k"
      using dn by (auto simp: less_Suc_eq im)
    moreover have "extends g ?t'" "matching_inv ?t'"
      using s e extends_trans by (auto simp: step_ok_def)
    ultimately show ?thesis unfolding r cleanup_ok_def by simp
  next
    case C
    let ?t' = "t \<lparr> singleton := int m \<rparr>"
    have r: "matching_Cleanup_step m t = ?t'" using C by (simp add: matching_Cleanup_step_def)
    have "\<forall>k < Suc m. isMatched ?t' k \<or> singleton ?t' = int k"
      using dn C(3) by (auto simp: less_Suc_eq)
    then show ?thesis unfolding r cleanup_ok_def using e inv C(1) by simp
  next
    case D
    define s where "s = nat (singleton t)"
    have sP: "s < m" "\<not> isMatched t s" "singleton t = int s"
      using sg D(3) by (simp_all add: s_def)
    let ?t1 = "createMatch t m s MatchType_Standard"
    let ?t' = "?t1 \<lparr> singleton := - 1 \<rparr>"
    have r: "matching_Cleanup_step m t = ?t'"
      using D by (simp add: matching_Cleanup_step_def s_def)
    have st: "s < Gn t" using sP(1) mt by simp
    have so: "step_ok t ?t1" by (rule step_ok_createMatch [OF inv mt st D(1) sP(2)])
    have len: "m < length (matching t)" "s < length (matching t)"
      using inv mt st by (simp_all add: matching_inv_def)
    have im: "\<And>v. isMatched ?t1 v \<longleftrightarrow> v = m \<or> v = s \<or> isMatched t v"
      using isMatched_createMatch [OF len] by simp
    have "\<forall>k < Suc m. isMatched ?t' k \<or> singleton ?t' = int k"
      using dn sP(3) by (auto simp: less_Suc_eq im)
    moreover have "extends g ?t1" "matching_inv ?t1"
      using so e extends_trans by (auto simp: step_ok_def)
    ultimately show ?thesis unfolding r cleanup_ok_def by simp
  qed
qed

lemma matching_Cleanup_ok:
  assumes inv: "matching_inv g" and sg: "singleton g = - 1"
  shows "extends g (matching_Cleanup g opts) \<and> matching_inv (matching_Cleanup g opts) \<and>
         (\<forall>k < Gn g. isMatched (matching_Cleanup g opts) k)"
proof -
  let ?t = "fold matching_Cleanup_step [0 ..< Gn g] g"
  have "cleanup_ok g (Gn g) ?t"
  proof (rule fold_upt_invariant [where I = "cleanup_ok g"])
    show "cleanup_ok g 0 g" using inv sg by (simp add: cleanup_ok_def)
  next
    fix k t assume "k < Gn g" "cleanup_ok g k t"
    then show "cleanup_ok g (Suc k) (matching_Cleanup_step k t)" by (rule cleanup_ok_step)
  qed
  then have e: "extends g ?t" and i: "matching_inv ?t"
    and s: "singleton ?t = - 1 \<or>
       (0 \<le> singleton ?t \<and> nat (singleton ?t) < Gn g \<and> \<not> isMatched ?t (nat (singleton ?t)))"
    and dn: "\<And>k. k < Gn g \<Longrightarrow> isMatched ?t k \<or> singleton ?t = int k"
    unfolding cleanup_ok_def by blast+
  show ?thesis
  proof (cases "singleton ?t = - 1")
    case True
    then have "matching_Cleanup g opts = ?t" by (simp add: matching_Cleanup_def)
    moreover have "\<forall>k < Gn g. isMatched ?t k" using dn True by force
    ultimately show ?thesis using e i by simp
  next
    case False
    define s where "s = nat (singleton ?t)"
    have sP: "s < Gn g" "\<not> isMatched ?t s" "singleton ?t = int s"
      using s False by (simp_all add: s_def)
    let ?t' = "createMatch ?t s s MatchType_Orphan"
    have r: "matching_Cleanup g opts = ?t'"
      using False by (simp add: matching_Cleanup_def Let_def s_def)
    have n: "Gn ?t = Gn g" using e by (simp add: extends_def)
    have so: "step_ok ?t ?t'"
      using step_ok_createMatch [OF i _ _ sP(2) sP(2)] sP(1) n by simp
    have len: "s < length (matching ?t)" using i sP(1) n by (simp add: matching_inv_def)
    have im: "\<And>v. isMatched ?t' v \<longleftrightarrow> v = s \<or> isMatched ?t v"
      using isMatched_createMatch [OF len len] by simp
    have "\<forall>k < Gn g. isMatched ?t' k" using dn sP(3) by (auto simp: im)
    moreover have "extends g ?t'" "matching_inv ?t'"
      using so e extends_trans by (auto simp: step_ok_def)
    ultimately show ?thesis unfolding r by simp
  qed
qed

lemma matching_Cleanup_result:
  assumes len: "length (matching g) = Gn g" and sg: "singleton g = - 1"
  shows "(\<forall>k < Gn g. isMatched g k \<longrightarrow> matching (matching_Cleanup g opts) ! k = matching g ! k) \<and>
         (\<forall>k < Gn g. \<not> isMatched g k \<and> degree g k \<noteq> 0 \<longrightarrow>
            matching (matching_Cleanup g opts) ! k = k + 1) \<and>
         (\<forall>i < length (isolated_unmatched g (Gn g)).
            matching (matching_Cleanup g opts) ! (isolated_unmatched g (Gn g) ! i) =
              cleanup_partner (isolated_unmatched g (Gn g)) i + 1)"
proof -
  let ?t = "fold matching_Cleanup_step [0 ..< Gn g] g"
  let ?iso = "isolated_unmatched g (Gn g)"
  let ?L = "length ?iso"
  have "cleanup_state g (Gn g) ?t"
  proof (rule fold_upt_invariant [where I = "cleanup_state g"])
    show "cleanup_state g 0 g"
      using len sg by (simp add: cleanup_state_def isolated_unmatched_def)
  next
    fix k t assume "k < Gn g" "cleanup_state g k t"
    then show "cleanup_state g (Suc k) (matching_Cleanup_step k t)" by (rule cleanup_state_step)
  qed
  then have fr: "length (matching ?t) = Gn g"
    and sgt: "singleton ?t = (if even ?L then - 1 else int (last ?iso))"
    and P1: "\<And>k. k < Gn g \<Longrightarrow> isMatched g k \<Longrightarrow> matching ?t ! k = matching g ! k"
    and P3: "\<And>k. k < Gn g \<Longrightarrow> \<not> isMatched g k \<Longrightarrow> degree g k \<noteq> 0 \<Longrightarrow> matching ?t ! k = k + 1"
    and P4: "\<And>i. i < ?L \<Longrightarrow> matching ?t ! (?iso ! i) =
          (if even i \<and> i + 1 = ?L then 0 else cleanup_partner ?iso i + 1)"
    unfolding cleanup_state_def Let_def by blast+
  have isoP: "\<And>i. i < ?L \<Longrightarrow> ?iso ! i < Gn g \<and> \<not> isMatched g (?iso ! i) \<and> degree g (?iso ! i) = 0"
    by (rule isolated_unmatched_nth)
  show ?thesis
  proof (cases "even ?L")
    case True
    then have r: "matching_Cleanup g opts = ?t" using sgt by (simp add: matching_Cleanup_def)
    have "\<And>i. \<not> (even i \<and> i + 1 = ?L)" using True by presburger
    then have "\<And>i. i < ?L \<Longrightarrow> matching ?t ! (?iso ! i) = cleanup_partner ?iso i + 1"
      using P4 by simp
    then show ?thesis unfolding r using P1 P3 by simp
  next
    case False
    then have Lpos: "0 < ?L" by (cases "?L") auto
    define s where "s = last ?iso"
    have s_nth: "s = ?iso ! (?L - 1)" using Lpos by (simp add: s_def last_conv_nth)
    have sP: "s < Gn g" "\<not> isMatched g s" "degree g s = 0"
      using isoP [of "?L - 1"] Lpos by (simp_all add: s_nth)
    have r: "matching (matching_Cleanup g opts) = (matching ?t)[s := s + 1]"
      using False sgt by (simp add: matching_Cleanup_def Let_def s_def createMatch_def)
    have Q1: "\<forall>k < Gn g. isMatched g k \<longrightarrow> (matching ?t)[s := s + 1] ! k = matching g ! k"
    proof (intro allI impI)
      fix k assume k: "k < Gn g" "isMatched g k"
      then have "k \<noteq> s" using sP(2) by auto
      then show "(matching ?t)[s := s + 1] ! k = matching g ! k" using P1 [OF k] by simp
    qed
    have Q3: "\<forall>k < Gn g. \<not> isMatched g k \<and> degree g k \<noteq> 0 \<longrightarrow>
            (matching ?t)[s := s + 1] ! k = k + 1"
    proof (intro allI impI)
      fix k assume k: "k < Gn g" "\<not> isMatched g k \<and> degree g k \<noteq> 0"
      then have "k \<noteq> s" using sP(3) by auto
      then show "(matching ?t)[s := s + 1] ! k = k + 1" using P3 [of k] k by simp
    qed
    have Q4: "\<forall>i < ?L. (matching ?t)[s := s + 1] ! (?iso ! i) = cleanup_partner ?iso i + 1"
    proof (intro allI impI)
      fix i assume i: "i < ?L"
      show "(matching ?t)[s := s + 1] ! (?iso ! i) = cleanup_partner ?iso i + 1"
      proof (cases "i + 1 = ?L")
        case True
        then have ev: "even i" using False by presburger
        have "?L - 1 = i" using True by simp
        then have "?iso ! i = s" by (simp add: s_nth)
        moreover have "cleanup_partner ?iso i = ?iso ! i"
          using ev True by (simp add: cleanup_partner_def)
        ultimately show ?thesis using sP(1) fr by simp
      next
        case ne: False
        have "?iso ! i \<noteq> ?iso ! (?L - 1)"
          using isolated_unmatched_distinct [of g "Gn g"] i Lpos ne
          by (simp add: nth_eq_iff_index_eq)
        then have "?iso ! i \<noteq> s" by (simp add: s_nth)
        then show ?thesis using P4 [OF i] ne by simp
      qed
    qed
    show ?thesis unfolding r using Q1 Q3 Q4 by simp
  qed
qed

lemma supernode_closed:
  assumes inv: "matching_inv g" and k: "k < Gn g" "isMatched g k"
  shows "supernode g k \<subseteq> {..< Gn g} \<and> (\<forall>j \<in> supernode g k. supernode g j = supernode g k)"
proof -
  have old: "mate g v < Gn g \<and> isMatched g (mate g v) \<and>
         (mate g v = v \<or> mate g (mate g v) = v \<or> mate g (mate g (mate g v)) = v)"
    if "v < Gn g" "isMatched g v" for v
    using inv that by (simp add: matching_inv_def)
  let ?x = "mate g k" and ?y = "mate g (mate g k)"
  have x: "?x < Gn g" "isMatched g ?x" using old [OF k] by simp_all
  have y: "?y < Gn g" "isMatched g ?y" using old [OF x] by simp_all
  have per: "?x = k \<or> ?y = k \<or> mate g ?y = k" using old [OF k] by simp
  have sub: "supernode g k \<subseteq> {..< Gn g}" using k x y by (simp add: supernode_def)
  have sx: "supernode g ?x = supernode g k"
    using per unfolding supernode_def by (elim disjE) auto
  have sy: "supernode g ?y = supernode g k"
    using per unfolding supernode_def by (elim disjE) auto
  show ?thesis using sub sx sy by (simp add: supernode_def)
qed

lemma initial_matching_inv:
  assumes "matching g = replicate (Gn g) 0"
  shows "matching_inv g"
  using assms by (simp add: matching_inv_def isMatched_def)

lemma match_strategy_ok:
  assumes vn: "valid_neighbors g" and pw: "positive_edge_weights g"
    and inv: "matching_inv g" and c: "ccm_contract ccm"
  shows "step_ok g (match_strategy ccm g opts)"
proof -
  have len: "length (matching g) = Gn g" using inv by (simp add: matching_inv_def)
  have h: "step_ok g (matching_HEM g opts)" by (rule matching_HEM_ok [OF inv vn])
  have hm: "maximal_matching (matching_HEM g opts)"
    using matching_HEM_maximal [OF vn len pw] by simp
  have hi: "matching_inv (matching_HEM g opts)" "valid_neighbors (matching_HEM g opts)"
    using h step_ok_valid_neighbors [OF h vn] by (simp_all add: step_ok_def)
  show ?thesis
  proof (cases "matchingStrategy opts")
    case Random
    then show ?thesis using matching_Random_ok [OF inv vn] by (simp add: match_strategy_def)
  next
    case HEM
    then show ?thesis using h by (simp add: match_strategy_def)
  next
    case HEMPA
    have "step_ok (matching_HEM g opts) (matching_PA ccm (matching_HEM g opts) opts)"
      by (rule matching_PA_ok [OF c hi hm])
    with h HEMPA show ?thesis using step_ok_trans by (simp add: match_strategy_def)
  next
    case HEMDavisPA
    have "step_ok (matching_HEM g opts) (matching_DavisPA ccm (matching_HEM g opts) opts)"
      by (rule matching_DavisPA_ok [OF c hi])
    with h HEMDavisPA show ?thesis using step_ok_trans by (simp add: match_strategy_def)
  qed
qed

text \<open>
  C3.  Start from a graph with valid neighbour lists and positive edge weights, no vertex
  matched and \<open>singleton = -1\<close>.  After \<open>match\<close> (any strategy followed by
  \<open>matching_Cleanup\<close>) every vertex \<open>k\<close> is matched and its supernode
  \<open>{k, mate k, mate (mate k)}\<close> consists of vertices and is the supernode of each of its
  members, so the supernodes partition the vertices into sets of one, two or three.  In
  the clean-up, a vertex that the strategy left unmatched and that has nonzero degree is
  matched to itself; the isolated unmatched vertices are paired in increasing order, the
  first with the second, the third with the fourth, and a last odd one with itself.
\<close>

theorem match_complete:
  assumes vn: "valid_neighbors g" and pw: "positive_edge_weights g"
    and init: "matching g = replicate (Gn g) 0" "singleton g = - 1"
    and c: "ccm_contract ccm"
  shows "(\<forall>k < Gn g. isMatched (match ccm g opts) k \<and>
            supernode (match ccm g opts) k \<subseteq> {..< Gn g} \<and>
            (\<forall>j \<in> supernode (match ccm g opts) k.
               supernode (match ccm g opts) j = supernode (match ccm g opts) k)) \<and>
         (\<forall>k < Gn g. \<not> isMatched (match_strategy ccm g opts) k \<and> degree g k \<noteq> 0 \<longrightarrow>
            matching (match ccm g opts) ! k = k + 1) \<and>
         (\<forall>i < length (isolated_unmatched (match_strategy ccm g opts) (Gn g)).
            matching (match ccm g opts) ! (isolated_unmatched (match_strategy ccm g opts) (Gn g) ! i) =
              cleanup_partner (isolated_unmatched (match_strategy ccm g opts) (Gn g)) i + 1)"
proof -
  let ?g1 = "match_strategy ccm g opts"
  let ?g' = "match ccm g opts"
  have inv: "matching_inv g" by (rule initial_matching_inv [OF init(1)])
  have s: "step_ok g ?g1" by (rule match_strategy_ok [OF vn pw inv c])
  then have g1: "matching_inv ?g1" "singleton ?g1 = - 1" "Gn ?g1 = Gn g" "Gp ?g1 = Gp g"
    using init(2) by (simp_all add: step_ok_def extends_def)
  have len1: "length (matching ?g1) = Gn ?g1" using g1(1) by (simp add: matching_inv_def)
  have r: "?g' = matching_Cleanup ?g1 opts" by (simp add: match_def)
  have ok: "matching_inv ?g'" "\<forall>k < Gn g. isMatched ?g' k" "Gn ?g' = Gn g"
    using matching_Cleanup_ok [OF g1(1,2), of opts] g1(3) by (simp_all add: r extends_def)
  have dg: "\<And>k. degree ?g1 k = degree g k" using g1(4) by (simp add: degree_def)
  have A: "\<forall>k < Gn g. isMatched ?g' k \<and> supernode ?g' k \<subseteq> {..< Gn g} \<and>
            (\<forall>j \<in> supernode ?g' k. supernode ?g' j = supernode ?g' k)"
    using supernode_closed [OF ok(1)] ok(2,3) by simp
  from matching_Cleanup_result [OF len1 g1(2), of opts]
  have B: "\<forall>k < Gn g. \<not> isMatched ?g1 k \<and> degree g k \<noteq> 0 \<longrightarrow> matching ?g' ! k = k + 1"
    and C: "\<forall>i < length (isolated_unmatched ?g1 (Gn g)).
            matching ?g' ! (isolated_unmatched ?g1 (Gn g) ! i) =
              cleanup_partner (isolated_unmatched ?g1 (Gn g)) i + 1"
    unfolding r [symmetric] g1(3) dg by blast+
  from A B C show ?thesis by blast
qed

subsection \<open>Example graphs\<close>

text \<open>
  \<open>G_path\<close> is the path \<open>2 - 0 - 1 - 3\<close> whose middle edge has weight 5; \<open>G_iso\<close> has
  the single edge \<open>1 - 3\<close> and the isolated vertices 0, 2, 4 and 5.
\<close>

definition G_path :: Graph where
  "G_path = \<lparr> Gn = 4, Gnz = 6, Gp = [0, 2, 4, 5, 6], Gi = [1, 2, 0, 3, 0, 1],
          Gx = Some [5, 1, 5, 1, 1, 1], Gw = [1, 1, 1, 1],
          GW = 4, GX = 14, GH = 28, cn = 0, matching = [0, 0, 0, 0], matchmap = [0, 0, 0, 0],
          invmatchmap = [0, 0, 0, 0], singleton = - 1, vertexGains = [0, 0, 0, 0] \<rparr>"

definition G_iso :: Graph where
  "G_iso = \<lparr> Gn = 6, Gnz = 2, Gp = [0, 0, 1, 1, 2, 2, 2], Gi = [3, 1],
          Gx = Some [1, 1], Gw = [1, 1, 1, 1, 1, 1],
          GW = 6, GX = 2, GH = 4, cn = 0, matching = [0, 0, 0, 0, 0, 0], matchmap = [0, 0, 0, 0, 0, 0],
          invmatchmap = [0, 0, 0, 0, 0, 0], singleton = - 1, vertexGains = [0, 0, 0, 0, 0, 0] \<rparr>"

definition opts_community :: Options where
  "opts_community = (the (Options_Create True)) \<lparr> matchingStrategy := HEMPA, doCommunityMatching := True \<rparr>"

subsection \<open>The theorems at the example graphs\<close>


text \<open>
  The theorem for C3 at the path, with heavy-edge and passive-aggressive matching and
  community matching switched on (the second leftover vertex meets a full triple), and
  at the graph with four isolated vertices under the default options.
\<close>

theorem match_complete_witness:
  "valid_neighbors G_iso \<and> positive_edge_weights G_iso \<and>
   matching G_iso = replicate (Gn G_iso) 0 \<and> singleton G_iso = - 1 \<and>
   valid_neighbors G_path \<and> positive_edge_weights G_path \<and>
   matching G_path = replicate (Gn G_path) 0 \<and> singleton G_path = - 1 \<and>
   ccm_contract createCommunityMatch \<and>
   isMatched (match createCommunityMatch G_path opts_community) 2 \<and>
   supernode (match createCommunityMatch G_path opts_community) 3 =
     supernode (match createCommunityMatch G_path opts_community) 2 \<and>
   isMatched (match createCommunityMatch G_iso (the (Options_Create True))) 4 \<and>
   matching (match createCommunityMatch G_iso (the (Options_Create True))) ! 0 = 3 \<and>
   matching (match createCommunityMatch G_iso (the (Options_Create True))) ! 2 = 1 \<and>
   matching (match createCommunityMatch G_iso (the (Options_Create True))) ! 4 = 6 \<and>
   matching (match createCommunityMatch G_iso (the (Options_Create True))) ! 5 = 5"
proof -
  let ?o = "the (Options_Create True)"
  let ?gi = "match createCommunityMatch G_iso ?o"
  let ?gp = "match createCommunityMatch G_path opts_community"
  have i1: "valid_neighbors G_iso" and i2: "positive_edge_weights G_iso"
    and i3: "matching G_iso = replicate (Gn G_iso) 0" and i4: "singleton G_iso = - 1"
    by code_simp+
  have p1: "valid_neighbors G_path" and p2: "positive_edge_weights G_path"
    and p3: "matching G_path = replicate (Gn G_path) 0" and p4: "singleton G_path = - 1"
    by code_simp+
  note c = createCommunityMatch_contract
  have ni: "Gn G_iso = 6" and np: "Gn G_path = 4" by code_simp+
  have vs: "isolated_unmatched (match_strategy createCommunityMatch G_iso ?o) (Gn G_iso) = [0, 2, 4, 5]"
    by code_simp
  have mem: "3 \<in> supernode ?gp 2" by code_simp
  note Ti = match_complete [OF i1 i2 i3 i4 c, of ?o]
  note Tp = match_complete [OF p1 p2 p3 p4 c, of opts_community]
  have a1: "isMatched ?gp 2" using Tp np by simp
  have a2: "supernode ?gp 3 = supernode ?gp 2" using Tp np mem by simp
  have b1: "isMatched ?gi 4" using Ti ni by simp
  have pr: "\<forall>i < 4. matching ?gi ! ([0, 2, 4, 5] ! i) = cleanup_partner [0, 2, 4, 5] i + 1"
    using Ti unfolding vs by simp
  have b2: "matching ?gi ! 0 = 3" using pr [rule_format, of 0] by (simp add: cleanup_partner_def)
  have b3: "matching ?gi ! 2 = 1" using pr [rule_format, of 1] by (simp add: cleanup_partner_def)
  have b4: "matching ?gi ! 4 = 6" using pr [rule_format, of 2] by (simp add: cleanup_partner_def)
  have b5: "matching ?gi ! 5 = 5" using pr [rule_format, of 3] by (simp add: cleanup_partner_def)
  from i1 i2 i3 i4 p1 p2 p3 p4 c a1 a2 b1 b2 b3 b4 b5 show ?thesis by blast
qed

section \<open>Coarsening\<close>

text \<open>
  \<open>coarsen\<close> (Mongoose_Coarsening.cpp).  The record holds the arrays of the coarse graph
  under construction and the local variables of the function, under their source names.
\<close>

record coarsen_state =
  htable :: "int list"
  Cp :: "nat list"
  Ci :: "nat list"
  Cx :: "Weight list"
  Cw :: "Weight list"
  gains :: "Weight list"
  munch :: nat
  X :: Weight
  ps :: nat
  nodeWeight :: Weight
  sumEdgeWeights :: Weight

text \<open>
  The array \<open>v[3]\<close> that the loop over \<open>k\<close> loads from \<open>invmatchmap\<close> and the matching
  chain; unused cells stay \<open>-1\<close>.
\<close>

definition coarsen_v :: "Graph \<Rightarrow> nat \<Rightarrow> int list" where
  "coarsen_v G k =
     (let v0 = int (invmatchmap G ! k);
          v1 = getMatch G (nat v0)
      in if v0 = v1 then [v0, - 1, - 1]
         else let v2 = getMatch G (nat v1)
              in if v0 = v2 then [v0, v1, - 1] else [v0, v1, v2])"

text \<open>
  The body of the loop over \<open>p\<close>: a self-edge is skipped; otherwise the edge weight is
  added to \<open>sumEdgeWeights\<close> and the edge is scattered through the hash table, whose cell
  for a coarse target counts as unseen when it is below the start \<open>ps\<close> of the column.
\<close>

definition coarsen_edge :: "Graph \<Rightarrow> nat \<Rightarrow> nat \<Rightarrow> coarsen_state \<Rightarrow> coarsen_state" where
  "coarsen_edge G k q s =
     (let toCoarsened = matchmap G ! (Gi G ! q)
      in if toCoarsened = k then s
         else let edgeWeight = the (Gx G) ! q;
                  s1 = s \<lparr> sumEdgeWeights := sumEdgeWeights s + the (Gx G) ! q \<rparr>;
                  cp = htable s1 ! toCoarsened
              in if cp < int (ps s1)
                 then s1 \<lparr> htable := (htable s1)[toCoarsened := int (munch s1)],
                           Ci := (Ci s1)[munch s1 := toCoarsened],
                           Cx := (Cx s1)[munch s1 := edgeWeight],
                           munch := munch s1 + 1 \<rparr>
                 else s1 \<lparr> Cx := (Cx s1)[nat cp := Cx s1 ! nat cp + edgeWeight] \<rparr>)"

text \<open>
  The body of the loop over \<open>i\<close> for one matched vertex, and the body of the loop over
  \<open>k\<close>; the loop over \<open>i\<close> stops at the first \<open>-1\<close> in \<open>v\<close>.
\<close>

definition coarsen_vertex :: "Graph \<Rightarrow> nat \<Rightarrow> nat \<Rightarrow> coarsen_state \<Rightarrow> coarsen_state" where
  "coarsen_vertex G k vertex s =
     fold (coarsen_edge G k) (column G vertex)
       (s \<lparr> nodeWeight := nodeWeight s + Gw G ! vertex \<rparr>)"

definition coarsen_column :: "Graph \<Rightarrow> nat \<Rightarrow> coarsen_state \<Rightarrow> coarsen_state" where
  "coarsen_column G k s =
     (let v = coarsen_v G k;
          s1 = s \<lparr> ps := munch s, Cp := (Cp s)[k := munch s],
                   nodeWeight := 0, sumEdgeWeights := 0 \<rparr>;
          s2 = fold (coarsen_vertex G k) (map nat (takeWhile (\<lambda>vi. vi \<noteq> - 1) v)) s1
      in s2 \<lparr> Cw := (Cw s2)[k := nodeWeight s2],
               X := X s2 + sumEdgeWeights s2,
               gains := (gains s2)[k := - sumEdgeWeights s2] \<rparr>)"

text \<open>
  Modelled from the spec: \<open>Graph::Create(G)\<close> is not among the sources.  The coarse
  graph has \<open>cn\<close> vertices, room for the \<open>nz\<close> edges of the fine graph, the total
  weight \<open>W\<close> of the fine graph (\<open>W\<close> is invariant across coarsening), and a fresh
  matching state.  The cells of its arrays start as zero here; \<open>coarsen\<close> overwrites
  every cell that it later reads.
\<close>

definition coarsen_init :: "Graph \<Rightarrow> coarsen_state" where
  "coarsen_init G =
     \<lparr> htable = replicate (cn G) (- 1), Cp = replicate (cn G + 1) 0,
       Ci = replicate (Gnz G) 0, Cx = replicate (Gnz G) 0,
       Cw = replicate (cn G) 0, gains = replicate (cn G) 0,
       munch = 0, X = 0, ps = 0, nodeWeight = 0, sumEdgeWeights = 0 \<rparr>"

definition coarsen_build :: "Graph \<Rightarrow> Graph" where
  "coarsen_build G =
     (let s = fold (coarsen_column G) [0 ..< cn G] (coarsen_init G)
      in \<lparr> Gn = cn G, Gnz = munch s, Gp = (Cp s)[cn G := munch s], Gi = Ci s,
           Gx = Some (Cx s), Gw = Cw s, GW = GW G, GX = X s, GH = 2 * X s,
           cn = 0, matching = replicate (cn G) 0, matchmap = replicate (cn G) 0,
           invmatchmap = replicate (cn G) 0, singleton = - 1, vertexGains = gains s \<rparr>)"

text \<open>
  The checks under \<open>doExpensiveChecks\<close> and the function itself.  A failed allocation
  returns the null pointer; \<open>assert\<close> aborts.
\<close>

datatype coarsen_error = OutOfMemory | AssertionFailure

definition coarsen_checks :: "Graph \<Rightarrow> bool" where
  "coarsen_checks C =
     ((\<forall>k \<in> set [0 ..< Gn C]. degree C k > 0) \<and>
      fold (\<lambda>k W. W + Gw C ! k) [0 ..< Gn C] 0 = GW C)"

definition coarsen :: "bool \<Rightarrow> Graph \<Rightarrow> Options \<Rightarrow> coarsen_error + Graph" where
  "coarsen alloc_ok G opts =
     (if \<not> alloc_ok then Inl OutOfMemory
      else let C = coarsen_build G
           in if doExpensiveChecks opts \<and> \<not> coarsen_checks C then Inl AssertionFailure
              else Inr C)"


subsection \<open>Completed matchings\<close>


definition complete_matching :: "Graph \<Rightarrow> bool" where
  "complete_matching G =
     (matching_inv G \<and> length (matchmap G) = Gn G \<and> cn G \<le> length (invmatchmap G) \<and>
      (\<forall>v < Gn G. isMatched G v \<and> matchmap G ! v < cn G \<and>
          matchmap G ! (mate G v) = matchmap G ! v \<and>
          v \<in> supernode G (invmatchmap G ! (matchmap G ! v))) \<and>
      (\<forall>k < cn G. invmatchmap G ! k < Gn G \<and> matchmap G ! (invmatchmap G ! k) = k))"








subsection \<open>Vertex weights of the coarse graph\<close>

lemma coarsen_edge_frame [simp]:
  "nodeWeight (coarsen_edge G k q s) = nodeWeight s"
  "Cw (coarsen_edge G k q s) = Cw s"
  "Cp (coarsen_edge G k q s) = Cp s"
  "ps (coarsen_edge G k q s) = ps s"
  "X (coarsen_edge G k q s) = X s"
  "gains (coarsen_edge G k q s) = gains s"
  by (simp_all add: coarsen_edge_def Let_def)

lemma coarsen_edges_frame [simp]:
  "nodeWeight (fold (coarsen_edge G k) qs s) = nodeWeight s"
  "Cw (fold (coarsen_edge G k) qs s) = Cw s"
  "Cp (fold (coarsen_edge G k) qs s) = Cp s"
  "ps (fold (coarsen_edge G k) qs s) = ps s"
  "X (fold (coarsen_edge G k) qs s) = X s"
  "gains (fold (coarsen_edge G k) qs s) = gains s"
  by (induction qs arbitrary: s) simp_all

lemma coarsen_vertices_frame [simp]:
  "nodeWeight (fold (coarsen_vertex G k) vs s) = nodeWeight s + (\<Sum>v\<leftarrow>vs. Gw G ! v)"
  "Cw (fold (coarsen_vertex G k) vs s) = Cw s"
  "Cp (fold (coarsen_vertex G k) vs s) = Cp s"
  "ps (fold (coarsen_vertex G k) vs s) = ps s"
  "X (fold (coarsen_vertex G k) vs s) = X s"
  "gains (fold (coarsen_vertex G k) vs s) = gains s"
  by (induction vs arbitrary: s) (simp_all add: coarsen_vertex_def)





subsection \<open>The scatter into the coarse adjacency\<close>

text \<open>
  \<open>fine_target G q\<close> is \<open>toCoarsened\<close> for the fine edge stored at \<open>q\<close>;
  \<open>scattered_weight G qs c\<close> adds up the weights of the edges among \<open>qs\<close> that go to the
  coarse vertex \<open>c\<close>.
\<close>

definition fine_target :: "Graph \<Rightarrow> nat \<Rightarrow> nat" where
  "fine_target G q = matchmap G ! (Gi G ! q)"

definition scattered_weight :: "Graph \<Rightarrow> nat list \<Rightarrow> nat \<Rightarrow> Weight" where
  "scattered_weight G qs c = (\<Sum>q\<leftarrow>filter (\<lambda>q. fine_target G q = c) qs. the (Gx G) ! q)"



text \<open>
  The state of the scatter while a column is built: \<open>dn\<close> are the fine edge positions
  already visited for coarse vertex \<open>k\<close>.
\<close>

definition scatter_inv :: "Graph \<Rightarrow> nat \<Rightarrow> nat list \<Rightarrow> coarsen_state \<Rightarrow> bool" where
  "scatter_inv G k dn s =
     (length (htable s) = cn G \<and>
      ps s \<le> munch s \<and> munch s \<le> ps s + length dn \<and>
      (\<forall>c < cn G. htable s ! c < int (munch s)) \<and>
      (\<forall>p. ps s \<le> p \<and> p < munch s \<longrightarrow>
         Ci s ! p < cn G \<and> Ci s ! p \<noteq> k \<and> htable s ! (Ci s ! p) = int p \<and>
         Cx s ! p = scattered_weight G dn (Ci s ! p)) \<and>
      (\<forall>c < cn G. c \<noteq> k \<longrightarrow>
         ((\<exists>q \<in> set dn. fine_target G q = c) \<longleftrightarrow> int (ps s) \<le> htable s ! c)) \<and>
      (\<forall>c < cn G. int (ps s) \<le> htable s ! c \<longrightarrow> Ci s ! nat (htable s ! c) = c))"



text \<open>What a column step leaves alone: the sizes of the arrays and the cells below \<open>ps\<close>.\<close>

definition scatter_frame :: "coarsen_state \<Rightarrow> coarsen_state \<Rightarrow> bool" where
  "scatter_frame s s' =
     (ps s' = ps s \<and> Cp s' = Cp s \<and>
      length (Ci s') = length (Ci s) \<and> length (Cx s') = length (Cx s) \<and>
      (\<forall>p < ps s. Ci s' ! p = Ci s ! p \<and> Cx s' ! p = Cx s ! p))"

lemma scatter_frame_refl [simp]: "scatter_frame s s"
  by (simp add: scatter_frame_def)



lemma scatter_inv_nodeWeight [simp]:
  "scatter_inv G k dn (s \<lparr> nodeWeight := w \<rparr>) = scatter_inv G k dn s"
  by (simp add: scatter_inv_def)

lemma scatter_frame_nodeWeight [simp]:
  "scatter_frame s (s' \<lparr> nodeWeight := w \<rparr>) = scatter_frame s s'"
  "scatter_frame (s \<lparr> nodeWeight := w \<rparr>) s' = scatter_frame s s'"
  by (simp_all add: scatter_frame_def)








text \<open>
  The compressed-column structure that \<open>coarsen\<close> relies on: neighbours are vertices,
  edge weights are present, the column pointers increase and end within \<open>nz\<close>.
\<close>

definition wf_csr :: "Graph \<Rightarrow> bool" where
  "wf_csr G =
     (valid_neighbors G \<and> Gx G \<noteq> None \<and>
      (\<forall>v < Gn G. Gp G ! v \<le> Gp G ! (v + 1)) \<and> Gp G ! Gn G \<le> Gnz G)"











subsection \<open>The adjacency of the coarse graph\<close>

text \<open>
  \<open>edge_weight G v u\<close> is the total weight stored for the edge from \<open>v\<close> to \<open>u\<close>.  A
  graph is symmetric when every edge has a mirror of the same weight.
  \<open>supernode_weight G k c\<close> is the total weight of the fine edges from the supernode of
  \<open>k\<close> to the supernode of \<open>c\<close>.
\<close>

definition edge_weight :: "Graph \<Rightarrow> nat \<Rightarrow> nat \<Rightarrow> Weight" where
  "edge_weight G v u = (\<Sum>q\<leftarrow>filter (\<lambda>q. Gi G ! q = u) (column G v). the (Gx G) ! q)"

definition has_edge :: "Graph \<Rightarrow> nat \<Rightarrow> nat \<Rightarrow> bool" where
  "has_edge G v u = (\<exists>q \<in> set (column G v). Gi G ! q = u)"

definition symmetric_graph :: "Graph \<Rightarrow> bool" where
  "symmetric_graph G =
     (\<forall>v < Gn G. \<forall>u < Gn G.
        edge_weight G v u = edge_weight G u v \<and> (has_edge G v u \<longleftrightarrow> has_edge G u v))"









subsection \<open>Coarsening at example graphs\<close>



definition G_edge_matched :: Graph where
  "G_edge_matched = match createCommunityMatch G_edge (the (Options_Create True))"

definition opts_checks :: Options where
  "opts_checks = (the (Options_Create True)) \<lparr> doExpensiveChecks := True \<rparr>"



text \<open>
  C9.  The claim says that the assertions under \<open>doExpensiveChecks\<close> never fire on a
  well-formed graph with a valid matching.  The graph of two vertices joined by one edge
  is well formed; \<open>match\<close> pairs its vertices, the coarse graph has one vertex and no
  edge, and \<open>assert(degree > 0)\<close> fires.
\<close>

theorem coarsen_assertion_fires:
  "wf_csr G_edge \<and> symmetric_graph G_edge \<and> positive_edge_weights G_edge \<and>
   GW G_edge = sum_list (Gw G_edge) \<and>
   G_edge_matched = match createCommunityMatch G_edge (the (Options_Create True)) \<and>
   complete_matching G_edge_matched \<and>
   degree (coarsen_build G_edge_matched) 0 = 0 \<and>
   coarsen True G_edge_matched opts_checks = Inl AssertionFailure"
proof -
  have "wf_csr G_edge" "symmetric_graph G_edge" "positive_edge_weights G_edge"
    "GW G_edge = sum_list (Gw G_edge)" "complete_matching G_edge_matched"
    "degree (coarsen_build G_edge_matched) 0 = 0"
    "coarsen True G_edge_matched opts_checks = Inl AssertionFailure"
    by code_simp+
  then show ?thesis by (simp add: G_edge_matched_def)
qed

text \<open>
  The theorem for C9 used at its own input: the call does not return a coarse graph.
\<close>

theorem coarsen_assertion_fires_witness:
  "coarsen True G_edge_matched opts_checks \<noteq> Inr (coarsen_build G_edge_matched)"
  using coarsen_assertion_fires by simp

section \<open>The napsack projector\<close>

text \<open>
  Modelled from the spec: the bodies of \<open>QPNapsack\<close>, \<open>QPnapup\<close> and \<open>QPnapdown\<close> are not
  among the sources; only the declarations in \<open>Mongoose_QPNapsack.hpp\<close> and
  \<open>Mongoose_QPNapDown.hpp\<close> are, and the definitions below keep their parameters in the
  declared order.  The work arrays (\<open>w\<close>, \<open>heap1\<close>, \<open>heap2\<close>, \<open>breakpts\<close>, \<open>bound_heap\<close>,
  \<open>free_heap\<close>) only hold the break points while they are scanned, so the model keeps the
  break points in a sorted list instead; \<open>status\<close> is the \<open>FreeSet_status\<close> array, which the
  projection itself does not read.  Numbers are exact reals.

  The projected point is \<open>x = clip (y - lambda * a)\<close>, and \<open>napsack_value y a lambda\<close> is
  \<open>a\<^sup>T x\<close> as a function of the multiplier.  Each index has the two break points \<open>y / a\<close>
  and \<open>(y - 1) / a\<close>.  \<open>QPnapup\<close> scans the break points above the initial multiplier in
  increasing order, \<open>QPnapdown\<close> those below it in decreasing order; as soon as the next break
  point would take the value past the target, the affine equation of the current interval is
  solved for the multiplier.  \<open>QPNapsack\<close> moves up when \<open>a\<^sup>T x\<close> exceeds \<open>hi\<close>, down when it is
  below \<open>lo\<close>, and materialises \<open>x\<close>.
\<close>

definition clip :: "real \<Rightarrow> real" where
  "clip r = max 0 (min 1 r)"

definition napsack_x :: "real list \<Rightarrow> real list \<Rightarrow> real \<Rightarrow> real list" where
  "napsack_x y a lambda = map (\<lambda>(yk, ak). clip (yk - lambda * ak)) (zip y a)"

definition dot :: "real list \<Rightarrow> real list \<Rightarrow> real" where
  "dot a x = (\<Sum>(ak, xk)\<leftarrow>zip a x. ak * xk)"

definition napsack_value :: "real list \<Rightarrow> real list \<Rightarrow> real \<Rightarrow> real" where
  "napsack_value y a lambda = (\<Sum>(yk, ak)\<leftarrow>zip y a. ak * clip (yk - lambda * ak))"

definition breakpts :: "real list \<Rightarrow> real list \<Rightarrow> real list" where
  "breakpts y a = concat (map (\<lambda>(yk, ak). [yk / ak, (yk - 1) / ak]) (zip y a))"

definition solve_affine :: "real \<Rightarrow> real \<Rightarrow> real \<Rightarrow> real \<Rightarrow> real \<Rightarrow> real" where
  "solve_affine l r vl vr t = l + (vl - t) * (r - l) / (vl - vr)"

fun napup_scan :: "real list \<Rightarrow> real list \<Rightarrow> real \<Rightarrow> real \<Rightarrow> real list \<Rightarrow> real" where
  "napup_scan y a t cur [] = cur"
| "napup_scan y a t cur (b # bs) =
     (if napsack_value y a b \<le> t
      then solve_affine cur b (napsack_value y a cur) (napsack_value y a b) t
      else napup_scan y a t b bs)"

fun napdown_scan :: "real list \<Rightarrow> real list \<Rightarrow> real \<Rightarrow> real \<Rightarrow> real list \<Rightarrow> real" where
  "napdown_scan y a t cur [] = cur"
| "napdown_scan y a t cur (b # bs) =
     (if t \<le> napsack_value y a b
      then solve_affine b cur (napsack_value y a b) (napsack_value y a cur) t
      else napdown_scan y a t b bs)"

definition QPnapup :: "real list \<Rightarrow> nat \<Rightarrow> real \<Rightarrow> real list \<Rightarrow> real \<Rightarrow> real" where
  "QPnapup x n lambda a b =
     (let y = take n x; a' = take n a
      in napup_scan y a' b lambda (sort (filter (\<lambda>bp. lambda < bp) (breakpts y a'))))"

definition QPnapdown :: "real list \<Rightarrow> nat \<Rightarrow> real \<Rightarrow> real list \<Rightarrow> real \<Rightarrow> real" where
  "QPnapdown x n lambda a b =
     (let y = take n x; a' = take n a
      in napdown_scan y a' b lambda (rev (sort (filter (\<lambda>bp. bp < lambda) (breakpts y a')))))"

definition QPNapsack ::
  "real list \<Rightarrow> nat \<Rightarrow> real \<Rightarrow> real \<Rightarrow> real list \<Rightarrow> real \<Rightarrow> int list \<Rightarrow> real \<Rightarrow> real \<times> real list" where
  "QPNapsack x n lo hi a Lambda status tol =
     (let v = napsack_value (take n x) (take n a) Lambda;
          lambda = (if hi + tol < v then QPnapup x n Lambda a hi
                    else if v < lo - tol then QPnapdown x n Lambda a lo
                    else Lambda)
      in (lambda, napsack_x (take n x) (take n a) lambda))"

subsection \<open>The value is affine between break points\<close>

lemma term_affine:
  assumes a: "0 < a" and lam: "l \<le> lam" "lam \<le> r"
    and nb1: "\<not> (l < y / a \<and> y / a < r)" and nb2: "\<not> (l < (y - 1) / a \<and> (y - 1) / a < r)"
  shows "(r - l) * (a * clip (y - lam * a)) =
         (r - lam) * (a * clip (y - l * a)) + (lam - l) * (a * clip (y - r * a))"
proof -
  have d1: "\<And>z. z < y / a \<longleftrightarrow> z * a < y" "\<And>z. y / a < z \<longleftrightarrow> y < z * a"
    "\<And>z. z < (y - 1) / a \<longleftrightarrow> z * a < y - 1" "\<And>z. (y - 1) / a < z \<longleftrightarrow> y - 1 < z * a"
    using a by (simp_all add: pos_less_divide_eq pos_divide_less_eq)
  have mono: "l * a \<le> lam * a" "lam * a \<le> r * a" using a lam by simp_all
  consider (one) "r * a \<le> y - 1" | (mid) "y - 1 \<le> l * a" "r * a \<le> y" | (zero) "y \<le> l * a"
    using nb1 nb2 mono unfolding d1 by linarith
  then show ?thesis
  proof cases
    case one
    then have "clip (y - lam * a) = 1" "clip (y - l * a) = 1" "clip (y - r * a) = 1"
      using mono by (simp_all add: clip_def)
    then show ?thesis by (simp add: algebra_simps)
  next
    case mid
    then have c: "clip (y - lam * a) = y - lam * a" "clip (y - l * a) = y - l * a"
      "clip (y - r * a) = y - r * a"
      using mono by (simp_all add: clip_def)
    show ?thesis unfolding c by (simp add: algebra_simps)
  next
    case zero
    then have "clip (y - lam * a) = 0" "clip (y - l * a) = 0" "clip (y - r * a) = 0"
      using mono by (simp_all add: clip_def)
    then show ?thesis by simp
  qed
qed

definition terms_value :: "(real \<times> real) list \<Rightarrow> real \<Rightarrow> real" where
  "terms_value zs lambda = (\<Sum>(yk, ak)\<leftarrow>zs. ak * clip (yk - lambda * ak))"

definition terms_breakpts :: "(real \<times> real) list \<Rightarrow> real list" where
  "terms_breakpts zs = concat (map (\<lambda>(yk, ak). [yk / ak, (yk - 1) / ak]) zs)"

lemma terms_affine:
  assumes "\<forall>(yk, ak) \<in> set zs. 0 < ak" and "l \<le> lam" "lam \<le> r"
    and "\<forall>b \<in> set (terms_breakpts zs). \<not> (l < b \<and> b < r)"
  shows "(r - l) * terms_value zs lam =
         (r - lam) * terms_value zs l + (lam - l) * terms_value zs r"
  using assms
proof (induction zs)
  case Nil
  show ?case by (simp add: terms_value_def)
next
  case (Cons z zs)
  obtain y a where z: "z = (y, a)" by (cases z)
  have t: "(r - l) * (a * clip (y - lam * a)) =
         (r - lam) * (a * clip (y - l * a)) + (lam - l) * (a * clip (y - r * a))"
    using Cons.prems by (intro term_affine) (simp_all add: z terms_breakpts_def)
  have IH: "(r - l) * terms_value zs lam =
         (r - lam) * terms_value zs l + (lam - l) * terms_value zs r"
    using Cons.prems by (intro Cons.IH) (simp_all add: terms_breakpts_def)
  have e: "\<And>x. terms_value (z # zs) x = a * clip (y - x * a) + terms_value zs x"
    by (simp add: terms_value_def z)
  show ?case unfolding e using t IH by (simp add: algebra_simps)
qed

lemma solve_affine_hits:
  assumes aff: "\<And>lam. l \<le> lam \<Longrightarrow> lam \<le> r \<Longrightarrow>
      (r - l) * V lam = (r - lam) * V l + (lam - l) * V r"
    and lr: "l \<le> r" and v: "V r \<le> t" "t \<le> V l" "V r < V l"
  shows "V (solve_affine l r (V l) (V r) t) = t"
proof -
  let ?s = "solve_affine l r (V l) (V r) t"
  have d: "0 < V l - V r" using v by simp
  have ne: "l \<noteq> r" using v by auto
  then have lr': "0 < r - l" using lr by simp
  have frac: "0 \<le> (V l - t) / (V l - V r)" "(V l - t) / (V l - V r) \<le> 1"
    using v d by simp_all
  have s: "?s - l = (V l - t) / (V l - V r) * (r - l)"
    by (simp add: solve_affine_def)
  have "0 \<le> (V l - t) / (V l - V r) * (r - l)"
    using frac(1) lr' by (intro mult_nonneg_nonneg) simp_all
  then have in1: "l \<le> ?s" using s by simp
  have "(V l - t) / (V l - V r) * (r - l) \<le> 1 * (r - l)"
    using frac(2) lr' by (intro mult_right_mono) simp_all
  then have in2: "?s \<le> r" using s by simp
  have "(r - l) * V ?s = (r - ?s) * V l + (?s - l) * V r" by (rule aff [OF in1 in2])
  also have "\<dots> = (r - l) * V l - (?s - l) * (V l - V r)" by (simp add: algebra_simps)
  also have "\<dots> = (r - l) * V l - (V l - t) * (r - l)"
    unfolding s using d by simp
  also have "\<dots> = (r - l) * t" by (simp add: algebra_simps)
  finally show ?thesis using lr' by simp
qed

lemma napsack_value_terms: "napsack_value y a = terms_value (zip y a)"
  by (rule ext) (simp add: napsack_value_def terms_value_def)

lemma breakpts_terms: "breakpts y a = terms_breakpts (zip y a)"
  by (simp add: breakpts_def terms_breakpts_def)

lemma terms_value_zero:
  assumes "\<forall>(yk, ak) \<in> set zs. 0 < ak \<and> yk / ak \<le> b"
  shows "terms_value zs b = 0"
  using assms
proof (induction zs)
  case Nil
  show ?case by (simp add: terms_value_def)
next
  case (Cons z zs)
  obtain y a where z: "z = (y, a)" by (cases z)
  have "0 < a" "y / a \<le> b" using Cons.prems by (simp_all add: z)
  then have "y \<le> b * a" by (simp add: pos_divide_le_eq)
  then have "clip (y - b * a) = 0" by (simp add: clip_def)
  moreover have "terms_value zs b = 0" using Cons by simp
  ultimately show ?case by (simp add: terms_value_def z)
qed

lemma terms_value_full:
  assumes "\<forall>(yk, ak) \<in> set zs. 0 < ak \<and> b \<le> (yk - 1) / ak"
  shows "terms_value zs b = sum_list (map snd zs)"
  using assms
proof (induction zs)
  case Nil
  show ?case by (simp add: terms_value_def)
next
  case (Cons z zs)
  obtain y a where z: "z = (y, a)" by (cases z)
  have "0 < a" "b \<le> (y - 1) / a" using Cons.prems by (simp_all add: z)
  then have "b * a \<le> y - 1" by (simp add: pos_le_divide_eq)
  then have "clip (y - b * a) = 1" by (simp add: clip_def)
  moreover have "terms_value zs b = sum_list (map snd zs)" using Cons by simp
  ultimately show ?case by (simp add: terms_value_def z)
qed

lemma napup_scan_hits:
  assumes pos: "\<forall>(yk, ak) \<in> set (zip y a). 0 < ak"
    and srt: "sorted (cur # bs)"
    and cover: "\<forall>b \<in> set (breakpts y a). b \<le> cur \<or> b \<in> set bs"
    and above: "t < napsack_value y a cur"
    and ex: "\<exists>b \<in> set bs. napsack_value y a b \<le> t"
  shows "napsack_value y a (napup_scan y a t cur bs) = t"
  using srt cover above ex
proof (induction bs arbitrary: cur)
  case Nil
  then show ?case by simp
next
  case (Cons b bs)
  have cb: "cur \<le> b" and bs: "\<forall>b' \<in> set bs. b \<le> b'" "sorted (b # bs)"
    using Cons.prems(1) by auto
  show ?case
  proof (cases "napsack_value y a b \<le> t")
    case True
    have nb: "\<forall>b' \<in> set (terms_breakpts (zip y a)). \<not> (cur < b' \<and> b' < b)"
      using Cons.prems(2) bs(1) unfolding breakpts_terms by fastforce
    have aff: "(b - cur) * napsack_value y a lam =
        (b - lam) * napsack_value y a cur + (lam - cur) * napsack_value y a b"
      if "cur \<le> lam" "lam \<le> b" for lam
      unfolding napsack_value_terms by (rule terms_affine [OF pos that nb])
    have v: "napsack_value y a b \<le> t" "t \<le> napsack_value y a cur"
      "napsack_value y a b < napsack_value y a cur"
      using True Cons.prems(3) by simp_all
    have "napsack_value y a
        (solve_affine cur b (napsack_value y a cur) (napsack_value y a b) t) = t"
      by (rule solve_affine_hits [where V = "napsack_value y a", OF aff cb v])
    then show ?thesis using True by simp
  next
    case False
    have c': "\<forall>b' \<in> set (breakpts y a). b' \<le> b \<or> b' \<in> set bs"
      using Cons.prems(2) cb by fastforce
    have e': "\<exists>b' \<in> set bs. napsack_value y a b' \<le> t"
      using Cons.prems(4) False by auto
    have "napsack_value y a (napup_scan y a t b bs) = t"
      using False by (intro Cons.IH [OF bs(2) c' _ e']) simp
    then show ?thesis using False by simp
  qed
qed

lemma napdown_scan_hits:
  assumes pos: "\<forall>(yk, ak) \<in> set (zip y a). 0 < ak"
    and srt: "sorted (rev (cur # bs))"
    and cover: "\<forall>b \<in> set (breakpts y a). cur \<le> b \<or> b \<in> set bs"
    and below: "napsack_value y a cur < t"
    and ex: "\<exists>b \<in> set bs. t \<le> napsack_value y a b"
  shows "napsack_value y a (napdown_scan y a t cur bs) = t"
  using srt cover below ex
proof (induction bs arbitrary: cur)
  case Nil
  then show ?case by simp
next
  case (Cons b bs)
  have cb: "b \<le> cur" and bs: "\<forall>b' \<in> set bs. b' \<le> b" "sorted (rev (b # bs))"
    using Cons.prems(1) by (auto simp: sorted_append)
  show ?case
  proof (cases "t \<le> napsack_value y a b")
    case True
    have nb: "\<forall>b' \<in> set (terms_breakpts (zip y a)). \<not> (b < b' \<and> b' < cur)"
      using Cons.prems(2) bs(1) unfolding breakpts_terms by fastforce
    have aff: "(cur - b) * napsack_value y a lam =
        (cur - lam) * napsack_value y a b + (lam - b) * napsack_value y a cur"
      if "b \<le> lam" "lam \<le> cur" for lam
      unfolding napsack_value_terms by (rule terms_affine [OF pos that nb])
    have v: "napsack_value y a cur \<le> t" "t \<le> napsack_value y a b"
      "napsack_value y a cur < napsack_value y a b"
      using True Cons.prems(3) by simp_all
    have "napsack_value y a
        (solve_affine b cur (napsack_value y a b) (napsack_value y a cur) t) = t"
      by (rule solve_affine_hits [where V = "napsack_value y a", OF aff cb v])
    then show ?thesis using True by simp
  next
    case False
    have c': "\<forall>b' \<in> set (breakpts y a). b \<le> b' \<or> b' \<in> set bs"
      using Cons.prems(2) cb by fastforce
    have e': "\<exists>b' \<in> set bs. t \<le> napsack_value y a b'"
      using Cons.prems(4) False by auto
    have "napsack_value y a (napdown_scan y a t b bs) = t"
      using False by (intro Cons.IH [OF bs(2) c' _ e']) simp
    then show ?thesis using False by simp
  qed
qed

lemma QPnapup_hits:
  assumes len: "length y = n" "length a = n"
    and pos: "\<forall>(yk, ak) \<in> set (zip y a). 0 < ak"
    and above: "t < napsack_value y a lambda" and t0: "0 \<le> t"
  shows "napsack_value y a (QPnapup y n lambda a t) = t"
proof -
  let ?zs = "zip y a"
  let ?S = "(\<lambda>(yk, ak). yk / ak) ` set ?zs"
  let ?bs = "sort (filter (\<lambda>bp. lambda < bp) (breakpts y a))"
  have "\<not> (\<forall>(yk, ak) \<in> set ?zs. 0 < ak \<and> yk / ak \<le> lambda)"
    using terms_value_zero [of ?zs lambda] above t0 by (auto simp: napsack_value_terms)
  then obtain yk ak where k: "(yk, ak) \<in> set ?zs" "lambda < yk / ak"
    using pos by fastforce
  have fin: "finite ?S" and ne: "?S \<noteq> {}" using k(1) by auto
  define bm where "bm = Max ?S"
  have bmS: "bm \<in> ?S" unfolding bm_def by (rule Max_in [OF fin ne])
  have bmge: "\<And>s. s \<in> ?S \<Longrightarrow> s \<le> bm" unfolding bm_def using fin by simp
  have "yk / ak \<le> bm" using bmge k(1) by force
  then have gt: "lambda < bm" using k(2) by simp
  have "bm \<in> set (breakpts y a)"
    using bmS by (auto simp: breakpts_def)
  then have mem: "bm \<in> set ?bs" using gt by simp
  have "\<forall>(yk, ak) \<in> set ?zs. 0 < ak \<and> yk / ak \<le> bm"
    using pos bmge by fastforce
  then have "napsack_value y a bm = 0"
    unfolding napsack_value_terms by (rule terms_value_zero)
  then have ex: "\<exists>b \<in> set ?bs. napsack_value y a b \<le> t" using mem t0 by force
  have srt: "sorted (lambda # ?bs)" by (auto simp: less_imp_le)
  have cover: "\<forall>b \<in> set (breakpts y a). b \<le> lambda \<or> b \<in> set ?bs" by auto
  have "QPnapup y n lambda a t = napup_scan y a t lambda ?bs"
    using len by (simp add: QPnapup_def)
  then show ?thesis
    using napup_scan_hits [OF pos srt cover above ex] by simp
qed

lemma QPnapdown_hits:
  assumes len: "length y = n" "length a = n"
    and pos: "\<forall>(yk, ak) \<in> set (zip y a). 0 < ak"
    and below: "napsack_value y a lambda < t" and t1: "t \<le> sum_list (map snd (zip y a))"
  shows "napsack_value y a (QPnapdown y n lambda a t) = t"
proof -
  let ?zs = "zip y a"
  let ?S = "(\<lambda>(yk, ak). (yk - 1) / ak) ` set ?zs"
  let ?bs = "rev (sort (filter (\<lambda>bp. bp < lambda) (breakpts y a)))"
  have "\<not> (\<forall>(yk, ak) \<in> set ?zs. 0 < ak \<and> lambda \<le> (yk - 1) / ak)"
    using terms_value_full [of ?zs lambda] below t1 by (auto simp: napsack_value_terms)
  then obtain yk ak where k: "(yk, ak) \<in> set ?zs" "(yk - 1) / ak < lambda"
    using pos by fastforce
  have fin: "finite ?S" and ne: "?S \<noteq> {}" using k(1) by auto
  define bm where "bm = Min ?S"
  have bmS: "bm \<in> ?S" unfolding bm_def by (rule Min_in [OF fin ne])
  have bmle: "\<And>s. s \<in> ?S \<Longrightarrow> bm \<le> s" unfolding bm_def using fin by simp
  have "bm \<le> (yk - 1) / ak" using bmle k(1) by force
  then have lt: "bm < lambda" using k(2) by simp
  have "bm \<in> set (breakpts y a)"
    using bmS by (auto simp: breakpts_def)
  then have mem: "bm \<in> set ?bs" using lt by simp
  have "\<forall>(yk, ak) \<in> set ?zs. 0 < ak \<and> bm \<le> (yk - 1) / ak"
    using pos bmle by fastforce
  then have "napsack_value y a bm = sum_list (map snd ?zs)"
    unfolding napsack_value_terms by (rule terms_value_full)
  then have ex: "\<exists>b \<in> set ?bs. t \<le> napsack_value y a b" using mem t1 by force
  have srt: "sorted (rev (lambda # ?bs))" by (auto simp: sorted_append less_imp_le)
  have cover: "\<forall>b \<in> set (breakpts y a). lambda \<le> b \<or> b \<in> set ?bs" by auto
  have "QPnapdown y n lambda a t = napdown_scan y a t lambda ?bs"
    using len by (simp add: QPnapdown_def)
  then show ?thesis
    using napdown_scan_hits [OF pos srt cover below ex] by simp
qed

lemma dot_napsack_x:
  assumes "length y = length a"
  shows "dot a (napsack_x y a lambda) = napsack_value y a lambda"
  using assms
proof (induction y a rule: list_induct2)
  case Nil
  show ?case by (simp add: dot_def napsack_x_def napsack_value_def)
next
  case (Cons yk y ak a)
  then show ?case by (simp add: dot_def napsack_x_def napsack_value_def)
qed

text \<open>
  C6.  For every input vector \<open>y\<close>, positive weight vector \<open>a\<close>, tolerance \<open>tol\<close> and bounds
  \<open>0 \<le> lo \<le> hi \<le> sum a\<close>, the multiplier returned by \<open>QPNapsack\<close> yields
  \<open>x = clip (y - lambda * a)\<close> whose value \<open>a\<^sup>T x\<close> is within \<open>tol\<close> of the bound the solver moves
  to: of \<open>hi\<close> when it starts above \<open>hi\<close>, of \<open>lo\<close> when it starts below \<open>lo\<close>, and of the single
  target \<open>t\<close> when \<open>lo = hi = t\<close>.  In every case \<open>a\<^sup>T x\<close> ends in \<open>[lo - tol, hi + tol]\<close>.
\<close>

theorem QPNapsack_property:
  assumes len: "length y = n" "length a = n" and pos: "\<forall>ak \<in> set a. 0 < ak"
    and tol: "0 \<le> tol" and bounds: "0 \<le> lo" "lo \<le> hi" "hi \<le> sum_list a"
  shows "case QPNapsack y n lo hi a Lambda status tol of
           (lambda, x) \<Rightarrow>
             x = napsack_x y a lambda \<and>
             (hi + tol < napsack_value y a Lambda \<longrightarrow> \<bar>dot a x - hi\<bar> \<le> tol) \<and>
             (napsack_value y a Lambda < lo - tol \<longrightarrow> \<bar>dot a x - lo\<bar> \<le> tol) \<and>
             (lo = hi \<longrightarrow> \<bar>dot a x - lo\<bar> \<le> tol) \<and>
             lo - tol \<le> dot a x \<and> dot a x \<le> hi + tol"
proof -
  let ?v = "napsack_value y a Lambda"
  define lambda where "lambda =
     (if hi + tol < ?v then QPnapup y n Lambda a hi
      else if ?v < lo - tol then QPnapdown y n Lambda a lo else Lambda)"
  have r: "QPNapsack y n lo hi a Lambda status tol = (lambda, napsack_x y a lambda)"
    using len by (simp add: QPNapsack_def Let_def lambda_def)
  have pz: "\<forall>(yk, ak) \<in> set (zip y a). 0 < ak"
    using pos by (auto dest: set_zip_rightD)
  have sa: "sum_list (map snd (zip y a)) = sum_list a" using len by simp
  have d: "dot a (napsack_x y a lambda) = napsack_value y a lambda"
    using len by (intro dot_napsack_x) simp
  consider (up) "hi + tol < ?v" | (down) "?v < lo - tol" | (stay) "lo - tol \<le> ?v" "?v \<le> hi + tol"
    by linarith
  then have "(hi + tol < ?v \<longrightarrow> napsack_value y a lambda = hi) \<and>
             (?v < lo - tol \<longrightarrow> napsack_value y a lambda = lo) \<and>
             lo - tol \<le> napsack_value y a lambda \<and> napsack_value y a lambda \<le> hi + tol"
  proof cases
    case up
    then have "lambda = QPnapup y n Lambda a hi" by (simp add: lambda_def)
    moreover have "napsack_value y a (QPnapup y n Lambda a hi) = hi"
      using up tol bounds by (intro QPnapup_hits [OF len pz]) simp_all
    ultimately show ?thesis using up tol bounds by simp
  next
    case down
    then have "lambda = QPnapdown y n Lambda a lo" using tol bounds by (simp add: lambda_def)
    moreover have "napsack_value y a (QPnapdown y n Lambda a lo) = lo"
      using down tol bounds sa by (intro QPnapdown_hits [OF len pz]) simp_all
    ultimately show ?thesis using down tol bounds by simp
  next
    case stay
    then have "lambda = Lambda" by (simp add: lambda_def)
    then show ?thesis using stay by simp
  qed
  then show ?thesis unfolding r using d tol by auto
qed

text \<open>
  Scenario F: \<open>y = [0.8, 0.3, 0.9, 0.1]\<close>, \<open>a = [1, 1, 1, 1]\<close>, target \<open>2\<close>.  The multiplier
  found is \<open>1 / 40\<close> and the projected point sums to \<open>2\<close>.
\<close>

lemma QPNapsack_scenario_F:
  "QPNapsack [8 / 10, 3 / 10, 9 / 10, 1 / 10] 4 2 2 [1, 1, 1, 1] 0 [0, 0, 0, 0] (1 / 1000) =
     (1 / 40, [31 / 40, 11 / 40, 7 / 8, 3 / 40])"
  by code_simp

theorem QPNapsack_property_witness:
  "\<bar>dot [1, 1, 1, 1]
      (snd (QPNapsack [8 / 10, 3 / 10, 9 / 10, 1 / 10] 4 2 2 [1, 1, 1, 1] 0 [0, 0, 0, 0] (1 / 1000)))
    - 2\<bar> \<le> 1 / 1000"
proof -
  have h: "length [8 / 10, 3 / 10, 9 / 10, 1 / 10 :: real] = 4" "length [1, 1, 1, 1 :: real] = 4"
    "\<forall>ak \<in> set [1, 1, 1, 1 :: real]. 0 < ak" "(0::real) \<le> 1 / 1000"
    "(0::real) \<le> 2" "(2::real) \<le> 2" "(2::real) \<le> sum_list [1, 1, 1, 1]"
    by simp_all
  show ?thesis
    using QPNapsack_property [OF h, of 0 "[0, 0, 0, 0]"] by (simp split: prod.splits)
qed

end
